theory Spec2Isabelle
  imports Main "HOL-Library.AList"
begin

section \<open>Strings of the script\<close>

text \<open>
  A Python \<open>str\<close> is a sequence of Unicode code points, so a file name is a list of
  naturals.  File contents are bytes and are kept as HOL strings (one \<open>char\<close> per byte).
  \<open>str\<close> turns an ASCII literal of the script into its code points.
\<close>

type_synonym pystr = "nat list"

definition str :: "string \<Rightarrow> pystr" where
  "str s = map of_char s"

text \<open>
  \<open>str.lower\<close>, restricted to what the suffix test can observe: the letters \<open>A\<close>..\<open>Z\<close>
  go to \<open>a\<close>..\<open>z\<close>.  The full Unicode lower-casing of Python also rewrites cased code
  points outside ASCII, but none of them is rewritten into one of the characters of
  \<open>.png\<close>, \<open>.jpg\<close>, \<open>.jpeg\<close>, so the result of \<open>endswith\<close> below is the same.
\<close>

definition lower_cp :: "nat \<Rightarrow> nat" where
  "lower_cp c = (if 65 \<le> c \<and> c \<le> 90 then c + 32 else c)"

definition lower :: "pystr \<Rightarrow> pystr" where
  "lower s = map lower_cp s"

text \<open>\<open>s.endswith(suffix)\<close> and its form with a tuple of suffixes.\<close>

definition endswith :: "pystr \<Rightarrow> pystr \<Rightarrow> bool" where
  "endswith s suffix =
     (length suffix \<le> length s \<and> drop (length s - length suffix) s = suffix)"

definition endswith_any :: "pystr \<Rightarrow> pystr list \<Rightarrow> bool" where
  "endswith_any s suffixes = list_ex (endswith s) suffixes"

text \<open>The condition of the list comprehension that builds \<open>files\<close>.\<close>

definition image_suffixes :: "pystr list" where
  "image_suffixes = [str ''.png'', str ''.jpg'', str ''.jpeg'']"

definition is_image :: "pystr \<Rightarrow> bool" where
  "is_image f = endswith_any (lower f) image_suffixes"

subsection \<open>\<open>os.path.splitext\<close> (posixpath)\<close>

text \<open>\<open>p.rfind(c)\<close> for a single character: the last index of \<open>c\<close>, or \<open>-1\<close>.\<close>

fun rfind :: "pystr \<Rightarrow> nat \<Rightarrow> int" where
  "rfind [] c = - 1"
| "rfind (x # xs) c =
     (let r = rfind xs c in if 0 \<le> r then r + 1 else if x = c then 0 else - 1)"

definition sep :: nat where "sep = 47"
definition extsep :: nat where "extsep = 46"

text \<open>
  The loop of \<open>genericpath._splitext\<close> that skips leading dots: the first character
  between \<open>filenameIndex\<close> and \<open>dotIndex\<close> that is not a dot makes the split happen.
\<close>

function splitext_loop :: "pystr \<Rightarrow> nat \<Rightarrow> nat \<Rightarrow> pystr \<times> pystr" where
  "splitext_loop p filenameIndex dotIndex =
     (if filenameIndex < dotIndex then
        (if take 1 (drop filenameIndex p) \<noteq> [extsep]
         then (take dotIndex p, drop dotIndex p)
         else splitext_loop p (filenameIndex + 1) dotIndex)
      else (p, []))"
  by pat_completeness auto
termination
  by (relation "measure (\<lambda>(p, filenameIndex, dotIndex). dotIndex - filenameIndex)") auto

declare splitext_loop.simps [simp del]

definition splitext :: "pystr \<Rightarrow> pystr \<times> pystr" where
  "splitext p =
     (let sepIndex = rfind p sep;
          dotIndex = rfind p extsep
      in if sepIndex < dotIndex
         then splitext_loop p (nat (sepIndex + 1)) (nat dotIndex)
         else (p, []))"

section \<open>\<open>json.dump\<close> with \<open>indent=2\<close>\<close>

text \<open>The JSON values the script writes: objects (in insertion order), arrays, strings, ints.\<close>

datatype json =
    JString pystr
  | JInt int
  | JArray "json list"
  | JObject "(pystr \<times> json) list"

definition hex_digit :: "nat \<Rightarrow> char" where
  "hex_digit n = ''0123456789abcdef'' ! (n mod 16)"

definition hex4 :: "nat \<Rightarrow> string" where
  "hex4 n = [hex_digit (n div 4096), hex_digit (n div 256), hex_digit (n div 16), hex_digit n]"

definition backslash :: char where "backslash = CHR 0x5C"
definition dquote :: char where "dquote = CHR 0x22"
definition newline :: char where "newline = CHR 0x0A"

text \<open>
  \<open>json.encoder.py_encode_basestring_ascii\<close>: printable ASCII is kept, the backslash,
  the quote and five control characters have short escapes, everything else becomes
  \<open>\uXXXX\<close>, as a surrogate pair above the basic plane.
\<close>

definition escape_cp :: "nat \<Rightarrow> string" where
  "escape_cp n =
     (if n = 92 then [backslash, backslash]
      else if n = 34 then [backslash, dquote]
      else if 32 \<le> n \<and> n \<le> 126 then [char_of n]
      else if n = 8 then [backslash, CHR ''b'']
      else if n = 12 then [backslash, CHR ''f'']
      else if n = 10 then [backslash, CHR ''n'']
      else if n = 13 then [backslash, CHR ''r'']
      else if n = 9 then [backslash, CHR ''t'']
      else if n < 65536 then [backslash, CHR ''u''] @ hex4 n
      else (let m = n - 65536;
                s1 = 55296 + (m div 1024) mod 1024;
                s2 = 56320 + m mod 1024
            in [backslash, CHR ''u''] @ hex4 s1 @ [backslash, CHR ''u''] @ hex4 s2))"

definition encode_basestring_ascii :: "pystr \<Rightarrow> string" where
  "encode_basestring_ascii s = dquote # concat (map escape_cp s) @ [dquote]"

text \<open>\<open>int.__repr__\<close>: the decimal digits, with a sign.\<close>

fun nat_repr :: "nat \<Rightarrow> string" where
  "nat_repr n =
     (if n < 10 then [char_of (48 + n)]
      else nat_repr (n div 10) @ [char_of (48 + n mod 10)])"

declare nat_repr.simps [simp del]

definition int_repr :: "int \<Rightarrow> string" where
  "int_repr i = (if i < 0 then CHR ''-'' # nat_repr (nat (- i)) else nat_repr (nat i))"

text \<open>\<open>separator.join(parts)\<close>.\<close>

fun join_str :: "string \<Rightarrow> string list \<Rightarrow> string" where
  "join_str s [] = []"
| "join_str s [x] = x"
| "join_str s (x # y # ys) = x @ s @ join_str s (y # ys)"

text \<open>
  \<open>_make_iterencode\<close> with an indent: an empty container is \<open>[]\<close> or \<open>{}\<close>; otherwise
  every item is on a line of its own, one level deeper, items are separated by a comma,
  a key from its value by a colon and a space.
\<close>

fun iterencode :: "nat \<Rightarrow> nat \<Rightarrow> json \<Rightarrow> string" where
  "iterencode indent level (JString s) = encode_basestring_ascii s"
| "iterencode indent level (JInt i) = int_repr i"
| "iterencode indent level (JArray xs) =
     (if xs = [] then ''[]''
      else (let newline_indent = newline # replicate (indent * (level + 1)) CHR '' '';
                item_separator = CHR '','' # newline_indent
            in ''['' @ newline_indent
               @ join_str item_separator (map (\<lambda>x. iterencode indent (level + 1) x) xs)
               @ newline # replicate (indent * level) CHR '' '' @ '']''))"
| "iterencode indent level (JObject kvs) =
     (if kvs = [] then ''{}''
      else (let newline_indent = newline # replicate (indent * (level + 1)) CHR '' '';
                item_separator = CHR '','' # newline_indent
            in ''{'' @ newline_indent
               @ join_str item_separator
                   (map (\<lambda>kv. encode_basestring_ascii (fst kv) @ '': ''
                               @ iterencode indent (level + 1) (snd kv)) kvs)
               @ newline # replicate (indent * level) CHR '' '' @ ''}''))"

definition json_dump :: "json \<Rightarrow> nat \<Rightarrow> string" where
  "json_dump obj indent = iterencode indent 0 obj"

section \<open>The file system\<close>

text \<open>
  A node is a regular file or a directory (its entries, in the order \<open>os.listdir\<close>
  yields them).  A file has its bytes and the metadata that reading it leaves alone and
  that \<open>shutil.copystat\<close> carries over: the permission bits, the modification time and
  the flags.  The access time, which a read may move, is not in the tree; it has a
  section of its own below.  Symbolic links, special files and permissions are outside the
  model.  A path is the list of its components below the root; \<open>os.path.join(p, c)\<close>
  with a component \<open>c\<close> that holds no separator is \<open>p @ [c]\<close>.
\<close>

record stat =
  st_mode :: nat
  st_mtime :: int
  st_flags :: nat

datatype node =
    File string stat
  | Dir "(pystr \<times> node) list"

type_synonym path = "pystr list"

datatype errno = ENOENT | ENOTDIR

datatype error =
    FileNotFoundError path
  | NotADirectoryError path
  | FileExistsError path
  | IsADirectoryError path
  | SameFileError path path

definition oserror :: "errno \<Rightarrow> path \<Rightarrow> error" where
  "oserror e p = (case e of ENOENT \<Rightarrow> FileNotFoundError p | ENOTDIR \<Rightarrow> NotADirectoryError p)"

text \<open>Path resolution: a missing component is \<open>ENOENT\<close>, a file in the middle \<open>ENOTDIR\<close>.\<close>

fun resolve :: "node \<Rightarrow> path \<Rightarrow> errno + node" where
  "resolve n [] = Inr n"
| "resolve (File d m) (c # cs) = Inl ENOTDIR"
| "resolve (Dir es) (c # cs) =
     (case map_of es c of None \<Rightarrow> Inl ENOENT | Some n \<Rightarrow> resolve n cs)"

text \<open>
  The one primitive that changes the tree: the entry at a path is removed (\<open>None\<close>),
  replaced where it stands, or added at the end of its directory.  The operations below
  call it only after their own checks.
\<close>

fun put :: "node \<Rightarrow> path \<Rightarrow> node option \<Rightarrow> node" where
  "put n [] x = (case x of None \<Rightarrow> n | Some n' \<Rightarrow> n')"
| "put (File d m) (c # cs) x = File d m"
| "put (Dir es) (c # cs) x =
     (if cs = []
      then Dir (case x of None \<Rightarrow> AList.delete c es | Some n' \<Rightarrow> AList.update c n' es)
      else Dir (AList.map_entry c (\<lambda>n. put n cs x) es))"

definition exists :: "node \<Rightarrow> path \<Rightarrow> bool" where
  "exists fs p = (case resolve fs p of Inl e \<Rightarrow> False | Inr n \<Rightarrow> True)"

definition isdir :: "node \<Rightarrow> path \<Rightarrow> bool" where
  "isdir fs p = (case resolve fs p of Inr (Dir es) \<Rightarrow> True | _ \<Rightarrow> False)"

text \<open>\<open>shutil.rmtree\<close>: the path must be a directory; the whole tree below it goes.\<close>

definition rmtree :: "node \<Rightarrow> path \<Rightarrow> error + node" where
  "rmtree fs p =
     (case resolve fs p of
        Inl e \<Rightarrow> Inl (oserror e p)
      | Inr (File d m) \<Rightarrow> Inl (NotADirectoryError p)
      | Inr (Dir es) \<Rightarrow> Inr (put fs p None))"

text \<open>\<open>os.mkdir\<close>: the parent must be a directory and the name must be free.\<close>

definition mkdir :: "node \<Rightarrow> path \<Rightarrow> error + node" where
  "mkdir fs p =
     (if p = [] then Inl (FileExistsError p)
      else case resolve fs (butlast p) of
        Inl e \<Rightarrow> Inl (oserror e p)
      | Inr (File d m) \<Rightarrow> Inl (NotADirectoryError p)
      | Inr (Dir es) \<Rightarrow>
          (case map_of es (last p) of
             Some n \<Rightarrow> Inl (FileExistsError p)
           | None \<Rightarrow> Inr (put fs p (Some (Dir [])))))"

text \<open>
  \<open>os.makedirs\<close>: a missing parent is made first (a \<open>FileExistsError\<close> from that call is
  swallowed), then the directory itself; with \<open>exist_ok\<close> an error of the last
  \<open>mkdir\<close> is dropped when the path is a directory.
\<close>

function makedirs :: "node \<Rightarrow> path \<Rightarrow> bool \<Rightarrow> error + node" where
  "makedirs fs name exist_ok =
     (let last_mkdir = (\<lambda>fs'.
            case mkdir fs' name of
              Inl e \<Rightarrow> if \<not> exist_ok \<or> \<not> isdir fs' name then Inl e else Inr fs'
            | Inr fs'' \<Rightarrow> Inr fs'')
      in if name \<noteq> [] \<and> \<not> exists fs (butlast name) then
           (case makedirs fs (butlast name) exist_ok of
              Inl (FileExistsError q) \<Rightarrow> last_mkdir fs
            | Inl e \<Rightarrow> Inl e
            | Inr fs' \<Rightarrow> last_mkdir fs')
         else last_mkdir fs)"
  by pat_completeness auto
termination
  by (relation "measure (\<lambda>(fs, name, exist_ok). length name)") auto

declare makedirs.simps [simp del]

text \<open>
  \<open>open(p, "w")\<close>, one \<open>write\<close> of the whole text, and \<open>close\<close>.  The metadata of the
  file written depends on the clock and the umask; the model takes it from \<open>fresh\<close>.
\<close>

definition write_file :: "(path \<Rightarrow> stat) \<Rightarrow> node \<Rightarrow> path \<Rightarrow> string \<Rightarrow> error + node" where
  "write_file fresh fs p text =
     (if p = [] then Inl (IsADirectoryError p)
      else case resolve fs (butlast p) of
        Inl e \<Rightarrow> Inl (oserror e p)
      | Inr (File d m) \<Rightarrow> Inl (NotADirectoryError p)
      | Inr (Dir es) \<Rightarrow>
          (case map_of es (last p) of
             Some (Dir ds) \<Rightarrow> Inl (IsADirectoryError p)
           | _ \<Rightarrow> Inr (put fs p (Some (File text (fresh p))))))"

text \<open>
  \<open>shutil.copy2\<close>: a destination that is a directory stands for the file of the same
  name in it; the source is opened first, then the destination is written, then
  \<open>copystat\<close> gives the copy the permission bits, the modification time and the flags
  of the source.  What the call does to access times is \<open>copy2_atimes\<close> below.
\<close>

definition copy2 :: "node \<Rightarrow> path \<Rightarrow> path \<Rightarrow> error + node" where
  "copy2 fs src dst =
     (let dst = (if isdir fs dst \<and> src \<noteq> [] then dst @ [last src] else dst)
      in if src = dst \<and> exists fs src then Inl (SameFileError src dst)
         else case resolve fs src of
           Inl e \<Rightarrow> Inl (oserror e src)
         | Inr (Dir es) \<Rightarrow> Inl (IsADirectoryError src)
         | Inr (File d m) \<Rightarrow>
             (if dst = [] then Inl (IsADirectoryError dst)
              else case resolve fs (butlast dst) of
                Inl e \<Rightarrow> Inl (oserror e dst)
              | Inr (File d' m') \<Rightarrow> Inl (NotADirectoryError dst)
              | Inr (Dir ds) \<Rightarrow>
                  (case map_of ds (last dst) of
                     Some (Dir xs) \<Rightarrow> Inl (IsADirectoryError dst)
                   | _ \<Rightarrow> Inr (put fs dst (Some (File d m))))))"

definition listdir :: "node \<Rightarrow> path \<Rightarrow> error + pystr list" where
  "listdir fs p =
     (case resolve fs p of
        Inl e \<Rightarrow> Inl (oserror e p)
      | Inr (File d m) \<Rightarrow> Inl (NotADirectoryError p)
      | Inr (Dir es) \<Rightarrow> Inr (map fst es))"

section \<open>The script\<close>

definition parent_dir :: path where
  "parent_dir = map str [''Users'', ''travis'', ''Documents'', ''projects'',
     ''claude-usage-pro'', ''Sources'', ''ClaudeUsagePro'']"

definition source_dir :: path where
  "source_dir = map str [''Users'', ''travis'', ''Documents'', ''projects'',
     ''claude-usage-pro'', ''Sources'', ''ClaudeUsagePro'', ''Assets'']"

definition dest_dir :: path where
  "dest_dir = map str [''Users'', ''travis'', ''Documents'', ''projects'',
     ''claude-usage-pro'', ''Sources'', ''ClaudeUsagePro'', ''Assets.xcassets'']"

definition info :: json where
  "info = JObject [(str ''author'', JString (str ''xcode'')), (str ''version'', JInt 1)]"

definition root_contents :: json where
  "root_contents = JObject [(str ''info'', info)]"

definition image_contents :: "pystr \<Rightarrow> json" where
  "image_contents filename =
     JObject
       [(str ''images'', JArray
          [JObject [(str ''filename'', JString filename),
                    (str ''idiom'', JString (str ''universal'')),
                    (str ''scale'', JString (str ''1x''))],
           JObject [(str ''idiom'', JString (str ''universal'')),
                    (str ''scale'', JString (str ''2x''))],
           JObject [(str ''idiom'', JString (str ''universal'')),
                    (str ''scale'', JString (str ''3x''))]]),
        (str ''info'', info)]"

text \<open>Lines 8 to 10: the destination is removed when it exists, then made.\<close>

definition reset_dest :: "node \<Rightarrow> error option \<times> node" where
  "reset_dest fs =
     (if exists fs dest_dir then
        (case rmtree fs dest_dir of
           Inl e \<Rightarrow> (Some e, fs)
         | Inr fs1 \<Rightarrow>
             (case makedirs fs1 dest_dir False of
                Inl e \<Rightarrow> (Some e, fs1)
              | Inr fs2 \<Rightarrow> (None, fs2)))
      else
        (case makedirs fs dest_dir False of
           Inl e \<Rightarrow> (Some e, fs)
         | Inr fs2 \<Rightarrow> (None, fs2)))"

definition files :: "pystr list \<Rightarrow> pystr list" where
  "files names = filter is_image names"

definition name_without_ext :: "pystr \<Rightarrow> pystr" where
  "name_without_ext filename = fst (splitext filename)"

definition imageset_dir :: "pystr \<Rightarrow> path" where
  "imageset_dir filename = dest_dir @ [name_without_ext filename @ str ''.imageset'']"

text \<open>
  The body of the loop.  An exception ends the run where it is raised, so the result is
  the error, if any, with the file system as it is at that moment.
\<close>

definition process_file :: "(path \<Rightarrow> stat) \<Rightarrow> pystr \<Rightarrow> node \<Rightarrow> error option \<times> node" where
  "process_file fresh filename fs =
     (case makedirs fs (imageset_dir filename) False of
        Inl e \<Rightarrow> (Some e, fs)
      | Inr fs1 \<Rightarrow>
          (case copy2 fs1 (source_dir @ [filename]) (imageset_dir filename @ [filename]) of
             Inl e \<Rightarrow> (Some e, fs1)
           | Inr fs2 \<Rightarrow>
               (case write_file fresh fs2 (imageset_dir filename @ [str ''Contents.json''])
                       (json_dump (image_contents filename) 2) of
                  Inl e \<Rightarrow> (Some e, fs2)
                | Inr fs3 \<Rightarrow> (None, fs3))))"

fun process_files :: "(path \<Rightarrow> stat) \<Rightarrow> pystr list \<Rightarrow> node \<Rightarrow> error option \<times> node" where
  "process_files fresh [] fs = (None, fs)"
| "process_files fresh (filename # rest) fs =
     (case process_file fresh filename fs of
        (Some e, fs') \<Rightarrow> (Some e, fs')
      | (None, fs') \<Rightarrow> process_files fresh rest fs')"

text \<open>
  The whole script.  The first component is the exception that ended the run, or \<open>None\<close>
  when the last line, which prints the completion message, has been reached.
\<close>

definition run :: "(path \<Rightarrow> stat) \<Rightarrow> node \<Rightarrow> error option \<times> node" where
  "run fresh fs =
     (case reset_dest fs of
        (Some e, fs1) \<Rightarrow> (Some e, fs1)
      | (None, fs1) \<Rightarrow>
          (case write_file fresh fs1 (dest_dir @ [str ''Contents.json''])
                  (json_dump root_contents 2) of
             Inl e \<Rightarrow> (Some e, fs1)
           | Inr fs2 \<Rightarrow>
               (case listdir fs2 source_dir of
                  Inl e \<Rightarrow> (Some e, fs2)
                | Inr names \<Rightarrow> process_files fresh (files names) fs2)))"

section \<open>Access times\<close>

text \<open>
  The access time of a file is kept apart from the tree, in a table from paths to times.
  Reading a file moves its access time as the mount decides (not at all with \<open>noatime\<close>,
  to the time of the read with \<open>strictatime\<close>, and with \<open>relatime\<close> when the old value
  is not later than the modification time or is a day old); the model takes the new value
  from \<open>accessed\<close>, given the path and the old value.

  The script reads file content in one place, \<open>shutil.copy2\<close>: \<open>copyfile\<close> reads the
  source, and \<open>copystat\<close> then stats the source and gives the copy its times, so the copy
  receives the access time that the source has after the read.  A call that raises has not
  read anything.  The table follows the files that are read and their copies; the access
  times of the descriptors that the run writes come from the clock, like the rest of
  their metadata, and are not followed.
\<close>

type_synonym atimes = "path \<Rightarrow> int"

definition copy2_atimes ::
  "(path \<Rightarrow> int \<Rightarrow> int) \<Rightarrow> node \<Rightarrow> path \<Rightarrow> path \<Rightarrow> atimes \<Rightarrow> atimes" where
  "copy2_atimes accessed fs src dst at =
     (case copy2 fs src dst of
        Inl e \<Rightarrow> at
      | Inr fs' \<Rightarrow>
          (let dst = (if isdir fs dst \<and> src \<noteq> [] then dst @ [last src] else dst);
               a = accessed src (at src)
           in (at(src := a))(dst := a)))"

text \<open>The table after the loop body, after the loop, and after the whole script.\<close>

definition process_file_atimes ::
  "(path \<Rightarrow> int \<Rightarrow> int) \<Rightarrow> pystr \<Rightarrow> node \<Rightarrow> atimes \<Rightarrow> atimes" where
  "process_file_atimes accessed filename fs at =
     (case makedirs fs (imageset_dir filename) False of
        Inl e \<Rightarrow> at
      | Inr fs1 \<Rightarrow>
          copy2_atimes accessed fs1 (source_dir @ [filename])
            (imageset_dir filename @ [filename]) at)"

fun process_files_atimes ::
  "(path \<Rightarrow> int \<Rightarrow> int) \<Rightarrow> (path \<Rightarrow> stat) \<Rightarrow> pystr list \<Rightarrow> node \<Rightarrow> atimes \<Rightarrow> atimes" where
  "process_files_atimes accessed fresh [] fs at = at"
| "process_files_atimes accessed fresh (filename # rest) fs at =
     (case process_file fresh filename fs of
        (Some e, fs') \<Rightarrow> process_file_atimes accessed filename fs at
      | (None, fs') \<Rightarrow>
          process_files_atimes accessed fresh rest fs'
            (process_file_atimes accessed filename fs at))"

definition run_atimes ::
  "(path \<Rightarrow> int \<Rightarrow> int) \<Rightarrow> (path \<Rightarrow> stat) \<Rightarrow> node \<Rightarrow> atimes \<Rightarrow> atimes" where
  "run_atimes accessed fresh fs at =
     (case reset_dest fs of
        (Some e, fs1) \<Rightarrow> at
      | (None, fs1) \<Rightarrow>
          (case write_file fresh fs1 (dest_dir @ [str ''Contents.json''])
                  (json_dump root_contents 2) of
             Inl e \<Rightarrow> at
           | Inr fs2 \<Rightarrow>
               (case listdir fs2 source_dir of
                  Inl e \<Rightarrow> at
                | Inr names \<Rightarrow> process_files_atimes accessed fresh (files names) fs2 at)))"

section \<open>The destination as a list of entries\<close>

text \<open>
  What one pass of the loop body does to the entries \<open>ds\<close> of the destination directory,
  given the entries \<open>es\<close> of the source directory.  The lemmas of the next sections show
  that \<open>process_file\<close> does exactly this to the file system.
\<close>

definition catalog_file ::
  "(path \<Rightarrow> stat) \<Rightarrow> (pystr \<times> node) list \<Rightarrow> pystr \<Rightarrow> (pystr \<times> node) list
     \<Rightarrow> error option \<times> (pystr \<times> node) list" where
  "catalog_file fresh es filename ds =
     (let c = name_without_ext filename @ str ''.imageset'' in
      case map_of ds c of
        Some n \<Rightarrow> (Some (FileExistsError (imageset_dir filename)), ds)
      | None \<Rightarrow>
          (case map_of es filename of
             None \<Rightarrow> (Some (FileNotFoundError (source_dir @ [filename])), ds @ [(c, Dir [])])
           | Some (Dir xs) \<Rightarrow>
               (Some (IsADirectoryError (source_dir @ [filename])), ds @ [(c, Dir [])])
           | Some (File d m) \<Rightarrow>
               (None, ds @ [(c, Dir (AList.update (str ''Contents.json'')
                   (File (json_dump (image_contents filename) 2)
                      (fresh (imageset_dir filename @ [str ''Contents.json''])))
                   [(filename, File d m)]))])))"

fun catalog_files ::
  "(path \<Rightarrow> stat) \<Rightarrow> (pystr \<times> node) list \<Rightarrow> pystr list \<Rightarrow> (pystr \<times> node) list
     \<Rightarrow> error option \<times> (pystr \<times> node) list" where
  "catalog_files fresh es [] ds = (None, ds)"
| "catalog_files fresh es (filename # rest) ds =
     (case catalog_file fresh es filename ds of
        (Some e, ds') \<Rightarrow> (Some e, ds')
      | (None, ds') \<Rightarrow> catalog_files fresh es rest ds')"

text \<open>
  The entries of the destination when the run ends, and the exception that ended it,
  as a function of what the source path resolves to.  \<open>run_catalog\<close> below shows that
  this is what \<open>run\<close> leaves behind once the destination has been reset.
\<close>

definition root_entry :: "(path \<Rightarrow> stat) \<Rightarrow> pystr \<times> node" where
  "root_entry fresh =
     (str ''Contents.json'',
      File (json_dump root_contents 2) (fresh (dest_dir @ [str ''Contents.json''])))"

definition catalog ::
  "(path \<Rightarrow> stat) \<Rightarrow> errno + node \<Rightarrow> error option \<times> (pystr \<times> node) list" where
  "catalog fresh src =
     (case src of
        Inl e \<Rightarrow> (Some (oserror e source_dir), [root_entry fresh])
      | Inr (File d m) \<Rightarrow> (Some (NotADirectoryError source_dir), [root_entry fresh])
      | Inr (Dir es) \<Rightarrow> catalog_files fresh es (files (map fst es)) [root_entry fresh])"

text \<open>The name of the container of a file, and the container of a source entry when complete.\<close>

definition container_name :: "pystr \<Rightarrow> pystr" where
  "container_name filename = name_without_ext filename @ str ''.imageset''"

definition container :: "(path \<Rightarrow> stat) \<Rightarrow> pystr \<times> node \<Rightarrow> pystr \<times> node" where
  "container fresh e =
     (container_name (fst e),
      Dir [(fst e, snd e),
           (str ''Contents.json'',
            File (json_dump (image_contents (fst e)) 2)
              (fresh (imageset_dir (fst e) @ [str ''Contents.json''])))])"

definition is_directory :: "node \<Rightarrow> bool" where
  "is_directory n = (case n of Dir es \<Rightarrow> True | File d m \<Rightarrow> False)"

section \<open>The content of a tree\<close>

text \<open>
  What a tree holds, without the metadata of its files: the names, the nesting and the
  bytes.
\<close>

datatype tree = Leaf string | Tree "(pystr \<times> tree) list"

fun content :: "node \<Rightarrow> tree" where
  "content (File d m) = Leaf d"
| "content (Dir es) = Tree (map (\<lambda>e. (fst e, content (snd e))) es)"

definition contents :: "(pystr \<times> node) list \<Rightarrow> (pystr \<times> tree) list" where
  "contents es = map (\<lambda>e. (fst e, content (snd e))) es"

section \<open>The selection in the words of the specification\<close>

text \<open>
  The specification selects the names that end, case-insensitively, with an allow-listed
  suffix.  Two characters are the same letter, case ignored, when they are equal or one is
  an upper-case ASCII letter and the other its lower-case form.  A name ends
  case-insensitively with a suffix when it is some stem followed by a tail that matches
  the suffix letter by letter.
\<close>

definition spec_same_letter :: "nat \<Rightarrow> nat \<Rightarrow> bool" where
  "spec_same_letter a b =
     (a = b \<or> (65 \<le> a \<and> a \<le> 90 \<and> b = a + 32) \<or> (65 \<le> b \<and> b \<le> 90 \<and> a = b + 32))"

definition spec_ends_caseless :: "pystr \<Rightarrow> pystr \<Rightarrow> bool" where
  "spec_ends_caseless name suffix =
     (\<exists>stem tail. name = stem @ tail \<and> list_all2 spec_same_letter tail suffix)"

section \<open>Example file systems\<close>

text \<open>\<open>under p n\<close> is the tree in which the path \<open>p\<close> leads to \<open>n\<close> and to nothing else.\<close>

fun under :: "path \<Rightarrow> node \<Rightarrow> node" where
  "under [] n = n"
| "under (c # cs) n = Dir [(c, under cs n)]"

definition stat0 :: stat where
  "stat0 = \<lparr>st_mode = 420, st_mtime = 900, st_flags = 0\<rparr>"

text \<open>Two choices of the metadata that the files written by a run receive.\<close>

definition fresh0 :: "path \<Rightarrow> stat" where
  "fresh0 p = \<lparr>st_mode = 420, st_mtime = 2000, st_flags = 0\<rparr>"

definition fresh1 :: "path \<Rightarrow> stat" where
  "fresh1 p = \<lparr>st_mode = 384, st_mtime = 3000, st_flags = 0\<rparr>"

text \<open>
  Every file was last accessed at time 1000; the mount records every read, and the run
  happens at time 5000.
\<close>

definition atime0 :: atimes where
  "atime0 p = 1000"

definition accessed0 :: "path \<Rightarrow> int \<Rightarrow> int" where
  "accessed0 p a = 5000"

text \<open>The source holds \<open>icon.png\<close> and \<open>notes.txt\<close>; the destination is an empty directory.\<close>

definition icon_fs :: node where
  "icon_fs = under parent_dir (Dir
     [(str ''Assets'', Dir [(str ''icon.png'', File ''PNG'' stat0),
                            (str ''notes.txt'', File ''hello'' stat0)]),
      (str ''Assets.xcassets'', Dir [])])"

text \<open>The source holds \<open>logo.png\<close> and \<open>logo.jpg\<close>, in this order; there is no destination.\<close>

definition logo_fs :: node where
  "logo_fs = under parent_dir (Dir
     [(str ''Assets'', Dir [(str ''logo.png'', File ''A'' stat0),
                            (str ''logo.jpg'', File ''B'' stat0)])])"

text \<open>The source holds the single file \<open>.png\<close>; the destination is an empty directory.\<close>

definition dotpng_fs :: node where
  "dotpng_fs = under parent_dir (Dir
     [(str ''Assets'', Dir [(str ''.png'', File ''hidden'' stat0)]),
      (str ''Assets.xcassets'', Dir [])])"

text \<open>The parent directory exists and is empty: there is neither source nor destination.\<close>

definition nosrc_fs :: node where
  "nosrc_fs = under parent_dir (Dir [])"

text \<open>The source is an empty directory; the destination path is a regular file.\<close>

definition destfile_fs :: node where
  "destfile_fs = under parent_dir (Dir
     [(str ''Assets'', Dir []),
      (str ''Assets.xcassets'', File ''old'' stat0)])"

text \<open>The destination is a directory with old content; there is no source.\<close>

definition olddest_fs :: node where
  "olddest_fs = under parent_dir (Dir
     [(str ''Assets.xcassets'', Dir [(str ''stale.txt'', File ''old'' stat0)])])"

text \<open>The source holds one entry, a subdirectory named \<open>a.png\<close>; there is no destination.\<close>

definition subdir_fs :: node where
  "subdir_fs = under parent_dir (Dir [(str ''Assets'', Dir [(str ''a.png'', Dir [])])])"

text \<open>
  The source holds the subdirectory \<open>old\<close>, \<open>icon.png\<close> and the file \<open>notes.txt\<close>;
  there is no destination.
\<close>

definition mixed_fs :: node where
  "mixed_fs = under parent_dir (Dir
     [(str ''Assets'', Dir [(str ''old'', Dir [(str ''x.png'', File ''X'' stat0)]),
                            (str ''icon.png'', File ''PNG'' stat0),
                            (str ''notes.txt'', File ''hello'' stat0)])])"

text \<open>The source holds \<open>icon.png\<close>; the destination is a directory with old content.\<close>

definition stale_fs :: node where
  "stale_fs = under parent_dir (Dir
     [(str ''Assets'', Dir [(str ''icon.png'', File ''PNG'' stat0)]),
      (str ''Assets.xcassets'', Dir [(str ''stale.txt'', File ''old'' stat0)])])"

text \<open>
  The access times after the loop has completed for the names \<open>fl\<close>: each file is read
  once, and its copy is given the time that the read has left on it.
\<close>

fun moved :: "(path \<Rightarrow> int \<Rightarrow> int) \<Rightarrow> pystr list \<Rightarrow> atimes \<Rightarrow> atimes" where
  "moved accessed [] at = at"
| "moved accessed (f # rest) at =
     moved accessed rest
       ((at(source_dir @ [f] := accessed (source_dir @ [f]) (at (source_dir @ [f]))))
          (imageset_dir f @ [f] := accessed (source_dir @ [f]) (at (source_dir @ [f]))))"

section \<open>Resolution after a change\<close>

lemma resolve_append:
  "resolve fs (p @ q) = (case resolve fs p of Inl e \<Rightarrow> Inl e | Inr n \<Rightarrow> resolve n q)"
proof (induction p arbitrary: fs)
  case Nil
  show ?case by simp
next
  case (Cons c p)
  show ?case
  proof (cases fs)
    case (File d m)
    then show ?thesis by simp
  next
    case (Dir es)
    then show ?thesis using Cons.IH by (simp split: option.splits)
  qed
qed

text \<open>A change strictly below \<open>p\<close> is a change of the node at \<open>p\<close>.\<close>

lemma resolve_put_below:
  "r \<noteq> [] \<Longrightarrow>
   resolve (put fs (p @ r) x) p =
     (case resolve fs p of Inl e \<Rightarrow> Inl e | Inr n \<Rightarrow> Inr (put n r x))"
proof (induction p arbitrary: fs)
  case Nil
  show ?case by simp
next
  case (Cons c p)
  show ?case
  proof (cases fs)
    case (File d m)
    then show ?thesis by simp
  next
    case (Dir es)
    then show ?thesis using Cons.IH [OF Cons.prems] Cons.prems
      by (simp add: map_of_map_entry split: option.splits)
  qed
qed

lemma resolve_put_other:
  "a \<noteq> b \<Longrightarrow> resolve (put n (a # r) x) (b # q) = resolve n (b # q)"
  by (cases n) (simp_all add: map_of_map_entry update_conv' delete_conv' split: option.splits)

text \<open>A change below one branch is not seen from another branch.\<close>

lemma resolve_put_diverge:
  assumes "a \<noteq> b"
  shows "resolve (put fs (p @ a # r) x) (p @ b # q) = resolve fs (p @ b # q)"
proof -
  have "resolve (put fs (p @ a # r) x) p =
        (case resolve fs p of Inl e \<Rightarrow> Inl e | Inr n \<Rightarrow> Inr (put n (a # r) x))"
    by (rule resolve_put_below) simp
  then show ?thesis
    using assms by (simp add: resolve_append [of _ p] resolve_put_other split: sum.splits)
qed

lemma update_fresh: "map_of ds c = None \<Longrightarrow> AList.update c n ds = ds @ [(c, n)]"
  by (induction ds) (auto split: if_splits)

lemma map_entry_last:
  "map_of ds c = None \<Longrightarrow> AList.map_entry c f (ds @ [(c, n)]) = ds @ [(c, f n)]"
  by (induction ds) (auto split: if_splits)

section \<open>The loop body on the file system\<close>

lemma source_dir_eq: "source_dir = parent_dir @ [str ''Assets'']"
  by (simp add: source_dir_def parent_dir_def)

lemma dest_dir_eq: "dest_dir = parent_dir @ [str ''Assets.xcassets'']"
  by (simp add: dest_dir_def parent_dir_def)

lemma assets_neq: "str ''Assets.xcassets'' \<noteq> str ''Assets''"
  by (simp add: str_def)

lemma put_dest_source:
  "resolve (put fs (dest_dir @ r) x) (source_dir @ q) = resolve fs (source_dir @ q)"
  using resolve_put_diverge [OF assets_neq, of fs parent_dir r x q]
  by (simp add: source_dir_eq dest_dir_eq)

lemma put_dest_source':
  "resolve (put fs (dest_dir @ r) x) source_dir = resolve fs source_dir"
  using put_dest_source [of fs r x "[]"] by simp

lemma put_dest_dest:
  "r \<noteq> [] \<Longrightarrow> resolve fs dest_dir = Inr n \<Longrightarrow>
   resolve (put fs (dest_dir @ r) x) dest_dir = Inr (put n r x)"
  by (simp add: resolve_put_below)

lemma makedirs_child:
  "resolve fs p = Inr (Dir ds) \<Longrightarrow>
   makedirs fs (p @ [c]) False =
     (case map_of ds c of
        Some n \<Rightarrow> Inl (FileExistsError (p @ [c]))
      | None \<Rightarrow> Inr (put fs (p @ [c]) (Some (Dir []))))"
  by (subst makedirs.simps) (simp add: exists_def mkdir_def split: option.splits)

lemma process_file_catalog:
  assumes D: "resolve fs dest_dir = Inr (Dir ds)"
      and S: "resolve fs source_dir = Inr (Dir es)"
  shows "\<exists>fs'. process_file fresh f fs = (fst (catalog_file fresh es f ds), fs')
           \<and> resolve fs' dest_dir = Inr (Dir (snd (catalog_file fresh es f ds)))
           \<and> resolve fs' source_dir = Inr (Dir es)"
proof -
  define c where "c = name_without_ext f @ str ''.imageset''"
  define contents_json where "contents_json = str ''Contents.json''"
  have idir: "imageset_dir f = dest_dir @ [c]"
    by (simp add: imageset_dir_def c_def)
  have mk: "makedirs fs (dest_dir @ [c]) False =
     (case map_of ds c of
        Some n \<Rightarrow> Inl (FileExistsError (dest_dir @ [c]))
      | None \<Rightarrow> Inr (put fs (dest_dir @ [c]) (Some (Dir []))))"
    by (rule makedirs_child [OF D])
  show ?thesis
  proof (cases "map_of ds c")
    case (Some n)
    then show ?thesis using D S mk
      by (simp add: process_file_def catalog_file_def idir c_def [symmetric])
  next
    case None
    define fs1 where "fs1 = put fs (dest_dir @ [c]) (Some (Dir []))"
    have mk1: "makedirs fs (dest_dir @ [c]) False = Inr fs1"
      using mk None by (simp add: fs1_def)
    have D1: "resolve fs1 dest_dir = Inr (Dir (ds @ [(c, Dir [])]))"
      using put_dest_dest [OF _ D, of "[c]" "Some (Dir [])"] None
      by (simp add: fs1_def update_fresh)
    have S1: "resolve fs1 source_dir = Inr (Dir es)"
      using S by (simp add: fs1_def put_dest_source')
    have C1: "resolve fs1 (dest_dir @ [c]) = Inr (Dir [])"
      using D1 None by (simp add: resolve_append map_add_def)
    have nd: "\<not> isdir fs1 (dest_dir @ [c] @ [f])"
      using C1 by (simp add: isdir_def resolve_append [of _ "dest_dir @ [c]" "[f]", simplified])
    have ne: "source_dir @ [f] \<noteq> dest_dir @ [c, f]"
      by (simp add: source_dir_eq dest_dir_eq)
    have Sf: "resolve fs1 (source_dir @ [f]) =
        (case map_of es f of None \<Rightarrow> Inl ENOENT | Some n \<Rightarrow> Inr n)"
      using S1 by (simp add: resolve_append split: option.splits)
    have P1: "resolve fs1 (butlast (dest_dir @ [c, f])) = Inr (Dir [])"
      using C1 by (simp add: butlast_append)
    show ?thesis
    proof (cases "map_of es f")
      case N: None
      have "copy2 fs1 (source_dir @ [f]) (dest_dir @ [c, f]) = Inl (FileNotFoundError (source_dir @ [f]))"
        using nd ne Sf N by (simp add: copy2_def exists_def oserror_def)
      then show ?thesis using mk1 None N D1 S1
        by (simp add: process_file_def catalog_file_def idir c_def [symmetric])
    next
      case (Some n)
      show ?thesis
      proof (cases n)
        case (Dir xs)
        have "copy2 fs1 (source_dir @ [f]) (dest_dir @ [c, f]) = Inl (IsADirectoryError (source_dir @ [f]))"
          using nd ne Sf Some Dir by (simp add: copy2_def exists_def)
        then show ?thesis using mk1 None Some Dir D1 S1
          by (simp add: process_file_def catalog_file_def idir c_def [symmetric])
      next
        case (File d m)
        define fs2 where "fs2 = put fs1 (dest_dir @ [c, f]) (Some (File d m))"
        have cp: "copy2 fs1 (source_dir @ [f]) (dest_dir @ [c, f]) = Inr fs2"
          using nd ne Sf Some File P1 by (simp add: copy2_def exists_def fs2_def)
        have D2: "resolve fs2 dest_dir = Inr (Dir (ds @ [(c, Dir [(f, File d m)])]))"
          using put_dest_dest [OF _ D1, of "[c, f]" "Some (File d m)"] None
          by (simp add: fs2_def map_entry_last)
        have S2: "resolve fs2 source_dir = Inr (Dir es)"
          using S1 by (simp add: fs2_def put_dest_source')
        have P2: "resolve fs2 (butlast (dest_dir @ [c, contents_json])) = Inr (Dir [(f, File d m)])"
          using D2 None by (simp add: butlast_append resolve_append map_add_def)
        define x where "x = File (json_dump (image_contents f) 2) (fresh (dest_dir @ [c, contents_json]))"
        define fs3 where "fs3 = put fs2 (dest_dir @ [c, contents_json]) (Some x)"
        have wr: "write_file fresh fs2 (dest_dir @ [c, contents_json]) (json_dump (image_contents f) 2) = Inr fs3"
          using P2 by (simp add: write_file_def fs3_def x_def)
        have D3: "resolve fs3 dest_dir = Inr (Dir (ds @ [(c, Dir (AList.update contents_json x [(f, File d m)]))]))"
          using put_dest_dest [OF _ D2, of "[c, contents_json]" "Some x"] None
          by (simp add: fs3_def map_entry_last)
        have S3: "resolve fs3 source_dir = Inr (Dir es)"
          using S2 by (simp add: fs3_def put_dest_source')
        show ?thesis using mk1 cp wr None Some File D3 S3
          by (simp add: process_file_def catalog_file_def idir c_def [symmetric] x_def contents_json_def)
      qed
    qed
  qed
qed

lemma process_files_catalog:
  assumes "resolve fs dest_dir = Inr (Dir ds)" and "resolve fs source_dir = Inr (Dir es)"
  shows "\<exists>fs'. process_files fresh fl fs = (fst (catalog_files fresh es fl ds), fs')
           \<and> resolve fs' dest_dir = Inr (Dir (snd (catalog_files fresh es fl ds)))
           \<and> resolve fs' source_dir = Inr (Dir es)"
  using assms
proof (induction fl arbitrary: fs ds)
  case Nil
  then show ?case by simp
next
  case (Cons f fl)
  obtain fs1 where step: "process_file fresh f fs = (fst (catalog_file fresh es f ds), fs1)"
      and D1: "resolve fs1 dest_dir = Inr (Dir (snd (catalog_file fresh es f ds)))"
      and S1: "resolve fs1 source_dir = Inr (Dir es)"
    using process_file_catalog [OF Cons.prems] by blast
  show ?case
  proof (cases "fst (catalog_file fresh es f ds)")
    case (Some e)
    then show ?thesis using step D1 S1 by (simp add: case_prod_unfold)
  next
    case None
    then show ?thesis using step Cons.IH [OF D1 S1] by (simp add: case_prod_unfold)
  qed
qed

lemma resolve_snoc_Inr:
  assumes "resolve fs (p @ [c]) = Inr n"
  shows "\<exists>ps. resolve fs p = Inr (Dir ps) \<and> map_of ps c = Some n"
proof (cases "resolve fs p")
  case (Inl e)
  then show ?thesis using assms by (simp add: resolve_append)
next
  case (Inr m)
  then show ?thesis using assms
    by (cases m) (simp_all add: resolve_append split: option.splits)
qed

lemma mkdir_Inr:
  assumes "mkdir fs p = Inr fs'"
  shows "p \<noteq> [] \<and> (\<exists>es. resolve fs (butlast p) = Inr (Dir es) \<and> map_of es (last p) = None)
         \<and> fs' = put fs p (Some (Dir []))"
  using assms
  by (auto simp: mkdir_def split: if_splits sum.splits node.splits option.splits)

lemma resolve_put_new:
  assumes "resolve fs p = Inr (Dir es)"
  shows "resolve (put fs (p @ [c]) (Some n)) (p @ [c]) = Inr n"
  using assms resolve_put_below [of "[c]" fs p "Some n"]
  by (simp add: resolve_append [of _ p "[c]"] update_conv')

lemma makedirs_False:
  "makedirs fs name False =
     (if name \<noteq> [] \<and> \<not> exists fs (butlast name) then
        (case makedirs fs (butlast name) False of
           Inl (FileExistsError q) \<Rightarrow> mkdir fs name
         | Inl e \<Rightarrow> Inl e
         | Inr fs' \<Rightarrow> mkdir fs' name)
      else mkdir fs name)"
  by (subst makedirs.simps) (simp split: sum.splits error.splits)

lemma makedirs_Inr:
  "makedirs fs p ok = Inr fs' \<Longrightarrow> \<not> ok \<Longrightarrow>
     resolve fs p = Inl ENOENT \<and> resolve fs' p = Inr (Dir [])
     \<and> (\<forall>r a q0 b q. p = r @ a # q0 \<and> a \<noteq> b \<longrightarrow>
           resolve fs' (r @ b # q) = resolve fs (r @ b # q))"
proof (induction fs p ok arbitrary: fs' rule: makedirs.induct)
  case (1 fs name exist_ok)
  have nok: "exist_ok = False" using "1.prems" by simp
  have mk: "makedirs fs name False = Inr fs'" using "1.prems" by simp
  show ?case
  proof (cases "name \<noteq> [] \<and> \<not> exists fs (butlast name)")
    case False
    then have "mkdir fs name = Inr fs'"
      using mk makedirs_False [of fs name] by (auto split: if_splits)
    from mkdir_Inr [OF this] obtain es where ne: "name \<noteq> []"
      and P: "resolve fs (butlast name) = Inr (Dir es)" and N: "map_of es (last name) = None"
      and fs': "fs' = put fs name (Some (Dir []))" by blast
    define pre c where "pre = butlast name" and "c = last name"
    have nm: "name = pre @ [c]" using ne by (simp add: pre_def c_def)
    have P': "resolve fs pre = Inr (Dir es)" and N': "map_of es c = None"
      using P N by (simp_all add: pre_def c_def)
    have a: "resolve fs (pre @ [c]) = Inl ENOENT"
      using P' N' by (simp add: resolve_append)
    have b: "resolve (put fs (pre @ [c]) (Some (Dir []))) (pre @ [c]) = Inr (Dir [])"
      by (rule resolve_put_new [OF P'])
    have c: "resolve fs' (r @ b # q) = resolve fs (r @ b # q)"
      if "name = r @ a # q0" "a \<noteq> b" for r a q0 b q
      unfolding fs' using that by (simp add: resolve_put_diverge)
    show ?thesis using a b c unfolding fs' nm by blast
  next
    case True
    then have ne: "name \<noteq> []" and nex: "\<not> exists fs (butlast name)" by simp_all
    define pre c where "pre = butlast name" and "c = last name"
    have nm: "name = pre @ [c]" using ne by (simp add: pre_def c_def)
    have unf: "(case makedirs fs (butlast name) False of
           Inl (FileExistsError q) \<Rightarrow> mkdir fs name
         | Inl e \<Rightarrow> Inl e
         | Inr fs1 \<Rightarrow> mkdir fs1 name) = Inr fs'"
      using mk True makedirs_False [of fs name] by simp
    have nomk: "mkdir fs name \<noteq> Inr fs'"
      using nex mkdir_Inr [of fs name fs'] by (auto simp: exists_def)
    from unf nomk obtain fs1 where rec: "makedirs fs (butlast name) False = Inr fs1"
      and last: "mkdir fs1 name = Inr fs'"
      by (auto split: sum.splits error.splits)
    have IH: "resolve fs (butlast name) = Inl ENOENT \<and> resolve fs1 (butlast name) = Inr (Dir [])
      \<and> (\<forall>r a q0 b q. butlast name = r @ a # q0 \<and> a \<noteq> b \<longrightarrow>
           resolve fs1 (r @ b # q) = resolve fs (r @ b # q))"
    proof -
      have "makedirs fs (butlast name) exist_ok = Inr fs1" using rec nok by simp
      from "1.IH" [OF refl True this "1.prems"(2)] show ?thesis .
    qed
    then have I1: "resolve fs pre = Inl ENOENT" and I2: "resolve fs1 pre = Inr (Dir [])"
      and I3: "\<And>r a q0 b q. pre = r @ a # q0 \<Longrightarrow> a \<noteq> b \<Longrightarrow>
           resolve fs1 (r @ b # q) = resolve fs (r @ b # q)"
      unfolding pre_def by blast+
    have fs': "fs' = put fs1 name (Some (Dir []))"
      using mkdir_Inr [OF last] by simp
    have a: "resolve fs (pre @ [c]) = Inl ENOENT"
      using I1 by (simp add: resolve_append)
    have b: "resolve (put fs1 (pre @ [c]) (Some (Dir []))) (pre @ [c]) = Inr (Dir [])"
      by (rule resolve_put_new [OF I2])
    have c: "resolve fs' (r @ b # q) = resolve fs (r @ b # q)"
      if eq: "name = r @ a # q0" and ab: "a \<noteq> b" for r a q0 b q
    proof -
      have s1: "resolve fs' (r @ b # q) = resolve fs1 (r @ b # q)"
        unfolding fs' eq using ab by (rule resolve_put_diverge)
      show ?thesis
      proof (cases "q0 = []")
        case True
        then have "pre = r" using eq nm by simp
        then show ?thesis using I1 I2 s1 by (simp add: resolve_append [of _ r])
      next
        case False
        then have "pre = r @ a # butlast q0" using eq unfolding pre_def by (simp add: butlast_append)
        from I3 [OF this ab] show ?thesis using s1 by simp
      qed
    qed
    show ?thesis using a b c unfolding fs' nm by blast
  qed
qed

section \<open>The reset of the destination\<close>

lemma put_dest_itself_source:
  "resolve (put fs dest_dir x) source_dir = resolve fs source_dir"
  using put_dest_source' [of fs "[]" x] by simp

lemma reset_dest_dir:
  assumes D: "resolve fs dest_dir = Inr (Dir ds)"
  shows "\<exists>fs1. reset_dest fs = (None, fs1) \<and> resolve fs1 dest_dir = Inr (Dir [])
           \<and> resolve fs1 source_dir = resolve fs source_dir"
proof -
  define A where "A = str ''Assets.xcassets''"
  have dd: "dest_dir = parent_dir @ [A]" by (simp add: dest_dir_eq A_def)
  obtain ps where P: "resolve fs parent_dir = Inr (Dir ps)"
    using resolve_snoc_Inr [of fs parent_dir A "Dir ds"] D dd by auto
  define fsr where "fsr = put fs dest_dir None"
  have rm: "rmtree fs dest_dir = Inr fsr"
    using D by (simp add: rmtree_def fsr_def)
  have Pr: "resolve fsr parent_dir = Inr (Dir (AList.delete A ps))"
    using resolve_put_below [of "[A]" fs parent_dir None] P by (simp add: fsr_def dd)
  have free: "map_of (AList.delete A ps) A = None"
    by (simp add: delete_conv')
  define fs1 where "fs1 = put fsr dest_dir (Some (Dir []))"
  have mk: "makedirs fsr dest_dir False = Inr fs1"
    using makedirs_child [OF Pr, of A] free by (simp add: dd fs1_def)
  have D1: "resolve fs1 dest_dir = Inr (Dir [])"
    using resolve_put_new [OF Pr, of A "Dir []"] by (simp add: fs1_def dd)
  have S1: "resolve fs1 source_dir = resolve fs source_dir"
    by (simp add: fs1_def fsr_def put_dest_itself_source)
  have "reset_dest fs = (None, fs1)"
    using D rm mk by (simp add: reset_dest_def exists_def)
  then show ?thesis using D1 S1 by blast
qed

lemma reset_dest_file:
  "resolve fs dest_dir = Inr (File d m) \<Longrightarrow>
   reset_dest fs = (Some (NotADirectoryError dest_dir), fs)"
  by (simp add: reset_dest_def exists_def rmtree_def)

lemma reset_dest_absent:
  "resolve fs dest_dir = Inl e \<Longrightarrow>
   reset_dest fs =
     (case makedirs fs dest_dir False of Inl e \<Rightarrow> (Some e, fs) | Inr fs2 \<Rightarrow> (None, fs2))"
  by (simp add: reset_dest_def exists_def)

lemma reset_dest_None:
  assumes "reset_dest fs = (None, fs1)"
  shows "resolve fs1 dest_dir = Inr (Dir []) \<and> resolve fs1 source_dir = resolve fs source_dir"
proof (cases "resolve fs dest_dir")
  case (Inl e)
  then have mk: "makedirs fs dest_dir False = Inr fs1"
    using assms by (simp add: reset_dest_absent split: sum.splits)
  have "resolve fs1 (parent_dir @ str ''Assets'' # []) = resolve fs (parent_dir @ str ''Assets'' # [])"
    using makedirs_Inr [OF mk] assets_neq dest_dir_eq by blast
  then show ?thesis using makedirs_Inr [OF mk] by (simp add: source_dir_eq)
next
  case (Inr n)
  show ?thesis
  proof (cases n)
    case (File d m)
    then show ?thesis using assms Inr by (simp add: reset_dest_file)
  next
    case (Dir ds)
    then show ?thesis using assms Inr reset_dest_dir [of fs ds] by auto
  qed
qed

lemma reset_dest_Some:
  assumes "reset_dest fs = (Some e, fs1)"
  shows "fs1 = fs"
proof (cases "resolve fs dest_dir")
  case (Inl e)
  then show ?thesis using assms by (simp add: reset_dest_absent split: sum.splits)
next
  case (Inr n)
  show ?thesis
  proof (cases n)
    case (File d m)
    then show ?thesis using assms Inr by (simp add: reset_dest_file)
  next
    case (Dir ds)
    then show ?thesis using assms Inr reset_dest_dir [of fs ds] by auto
  qed
qed

text \<open>When the source path exists, its parent does, and the reset can only fail on a file.\<close>

lemma reset_dest_source_exists:
  assumes S: "resolve fs source_dir = Inr n" and D: "resolve fs dest_dir = Inl e"
  shows "\<exists>fs1. reset_dest fs = (None, fs1)"
proof -
  obtain ps where P: "resolve fs parent_dir = Inr (Dir ps)"
    using resolve_snoc_Inr [of fs parent_dir "str ''Assets''" n] S source_dir_eq by auto
  have "map_of ps (str ''Assets.xcassets'') = None"
    using D P by (simp add: dest_dir_eq resolve_append split: option.splits)
  then have "makedirs fs dest_dir False = Inr (put fs dest_dir (Some (Dir [])))"
    using makedirs_child [OF P, of "str ''Assets.xcassets''"] by (simp add: dest_dir_eq)
  then show ?thesis using D by (simp add: reset_dest_absent)
qed

section \<open>The whole run on the file system\<close>

lemma run_reset_failed:
  "reset_dest fs = (Some e, fs1) \<Longrightarrow> run fresh fs = (Some e, fs)"
  using reset_dest_Some [of fs e fs1] by (simp add: run_def)

lemma run_catalog:
  assumes R: "reset_dest fs = (None, fs1)"
  shows "\<exists>fs'. run fresh fs = (fst (catalog fresh (resolve fs source_dir)), fs')
           \<and> resolve fs' dest_dir = Inr (Dir (snd (catalog fresh (resolve fs source_dir))))
           \<and> resolve fs' source_dir = resolve fs source_dir"
proof -
  have D1: "resolve fs1 dest_dir = Inr (Dir [])"
    and S1: "resolve fs1 source_dir = resolve fs source_dir"
    using reset_dest_None [OF R] by simp_all
  define cj where "cj = str ''Contents.json''"
  define x where "x = File (json_dump root_contents 2) (fresh (dest_dir @ [cj]))"
  define fs2 where "fs2 = put fs1 (dest_dir @ [cj]) (Some x)"
  have wr: "write_file fresh fs1 (dest_dir @ [cj]) (json_dump root_contents 2) = Inr fs2"
    using D1 by (simp add: write_file_def fs2_def x_def)
  have D2: "resolve fs2 dest_dir = Inr (Dir [root_entry fresh])"
    using put_dest_dest [OF _ D1, of "[cj]" "Some x"]
    by (simp add: fs2_def root_entry_def x_def cj_def)
  have S2: "resolve fs2 source_dir = resolve fs source_dir"
    using S1 by (simp add: fs2_def put_dest_source')
  have run: "run fresh fs =
      (case listdir fs2 source_dir of
         Inl e \<Rightarrow> (Some e, fs2)
       | Inr names \<Rightarrow> process_files fresh (files names) fs2)"
    using R wr by (simp add: run_def cj_def)
  show ?thesis
  proof (cases "resolve fs source_dir")
    case (Inl e)
    then show ?thesis using run D2 S2 by (simp add: listdir_def catalog_def)
  next
    case (Inr n)
    show ?thesis
    proof (cases n)
      case (File d m)
      then show ?thesis using run D2 S2 Inr by (simp add: listdir_def catalog_def)
    next
      case (Dir es)
      have S2': "resolve fs2 source_dir = Inr (Dir es)" using S2 Inr Dir by simp
      have "run fresh fs = process_files fresh (files (map fst es)) fs2"
        using run S2' by (simp add: listdir_def)
      then show ?thesis
        using process_files_catalog [OF D2 S2', of fresh "files (map fst es)"] Inr Dir
        by (simp add: catalog_def)
    qed
  qed
qed

lemma enc_consts:
  \<open>encode_basestring_ascii (str ''images'') = ''"images"''\<close>
  \<open>encode_basestring_ascii (str ''filename'') = ''"filename"''\<close>
  \<open>encode_basestring_ascii (str ''idiom'') = ''"idiom"''\<close>
  \<open>encode_basestring_ascii (str ''scale'') = ''"scale"''\<close>
  \<open>encode_basestring_ascii (str ''universal'') = ''"universal"''\<close>
  \<open>encode_basestring_ascii (str ''1x'') = ''"1x"''\<close>
  \<open>encode_basestring_ascii (str ''2x'') = ''"2x"''\<close>
  \<open>encode_basestring_ascii (str ''3x'') = ''"3x"''\<close>
  \<open>encode_basestring_ascii (str ''info'') = ''"info"''\<close>
  \<open>encode_basestring_ascii (str ''author'') = ''"author"''\<close>
  \<open>encode_basestring_ascii (str ''xcode'') = ''"xcode"''\<close>
  \<open>encode_basestring_ascii (str ''version'') = ''"version"''\<close>
  \<open>int_repr 1 = ''1''\<close>
  by code_simp+

lemma root_text:
  \<open>json_dump root_contents 2 =
     ''{\<newline>  "info": {\<newline>    "author": "xcode",\<newline>    "version": 1\<newline>  }\<newline>}''\<close>
  by (simp add: json_dump_def root_contents_def info_def enc_consts newline_def eval_nat_numeral)

lemma image_text:
  \<open>json_dump (image_contents filename) 2 =
     ''{\<newline>  "images": [\<newline>    {\<newline>      "filename": '' @ encode_basestring_ascii filename
     @ '',\<newline>      "idiom": "universal",\<newline>      "scale": "1x"\<newline>    },\<newline>    {\<newline>      "idiom": "universal",\<newline>      "scale": "2x"\<newline>    },\<newline>    {\<newline>      "idiom": "universal",\<newline>      "scale": "3x"\<newline>    }\<newline>  ],\<newline>  "info": {\<newline>    "author": "xcode",\<newline>    "version": 1\<newline>  }\<newline>}''\<close>
  by (simp add: json_dump_def image_contents_def info_def enc_consts newline_def eval_nat_numeral)

lemma write_file_Inr:
  assumes "write_file fresh fs p text = Inr fs'"
  shows "resolve fs' p = Inr (File text (fresh p))"
proof -
  from assms have ne: "p \<noteq> []" by (auto simp: write_file_def split: if_splits)
  define pre c where "pre = butlast p" and "c = last p"
  have p: "p = pre @ [c]" using ne by (simp add: pre_def c_def)
  from assms obtain es where P: "resolve fs pre = Inr (Dir es)"
    and fs': "fs' = put fs (pre @ [c]) (Some (File text (fresh (pre @ [c]))))"
    unfolding p by (auto simp: write_file_def split: sum.splits node.splits option.splits)
  show ?thesis unfolding fs' p by (rule resolve_put_new [OF P])
qed


lemma resolve_under: "resolve (under p n) (p @ q) = resolve n q"
  by (induction p) simp_all

lemma icon_fs_source:
  "resolve icon_fs source_dir =
     Inr (Dir [(str ''icon.png'', File ''PNG'' stat0), (str ''notes.txt'', File ''hello'' stat0)])"
  unfolding icon_fs_def source_dir_eq by (simp add: resolve_under)

lemma icon_fs_dest: "resolve icon_fs dest_dir = Inr (Dir [])"
  unfolding icon_fs_def dest_dir_eq by (simp add: resolve_under assets_neq)

text \<open>
  C5.  When the loop body completes for a file name, the file \<open>Contents.json\<close> of its
  container holds the dump, with indent 2, of an object with two members: \<open>images\<close>, an
  array of exactly three entries, of which the first has \<open>filename\<close> (the source file
  name), \<open>idiom\<close> and \<open>scale\<close> \<open>1x\<close>, and the other two have only \<open>idiom\<close> and \<open>scale\<close>
  (\<open>2x\<close>, \<open>3x\<close>); and \<open>info\<close>, with author \<open>xcode\<close> and version 1.  The text is
  given in full.
\<close>

theorem image_descriptor_written:
  assumes "process_file fresh filename fs = (None, fs')"
  shows \<open>resolve fs' (imageset_dir filename @ [str ''Contents.json'']) =
           Inr (File (json_dump (image_contents filename) 2)
                  (fresh (imageset_dir filename @ [str ''Contents.json''])))
         \<and> image_contents filename =
             JObject
               [(str ''images'', JArray
                  [JObject [(str ''filename'', JString filename),
                            (str ''idiom'', JString (str ''universal'')),
                            (str ''scale'', JString (str ''1x''))],
                   JObject [(str ''idiom'', JString (str ''universal'')),
                            (str ''scale'', JString (str ''2x''))],
                   JObject [(str ''idiom'', JString (str ''universal'')),
                            (str ''scale'', JString (str ''3x''))]]),
                (str ''info'', JObject [(str ''author'', JString (str ''xcode'')),
                                        (str ''version'', JInt 1)])]
         \<and> json_dump (image_contents filename) 2 =
             ''{\<newline>  "images": [\<newline>    {\<newline>      "filename": ''
             @ encode_basestring_ascii filename
             @ '',\<newline>      "idiom": "universal",\<newline>      "scale": "1x"\<newline>    },\<newline>    {\<newline>      "idiom": "universal",\<newline>      "scale": "2x"\<newline>    },\<newline>    {\<newline>      "idiom": "universal",\<newline>      "scale": "3x"\<newline>    }\<newline>  ],\<newline>  "info": {\<newline>    "author": "xcode",\<newline>    "version": 1\<newline>  }\<newline>}''\<close>
proof -
  from assms obtain fs2 where
    "write_file fresh fs2 (imageset_dir filename @ [str ''Contents.json''])
       (json_dump (image_contents filename) 2) = Inr fs'"
    by (auto simp: process_file_def split: sum.splits)
  from write_file_Inr [OF this] show ?thesis
    by (simp add: image_text) (simp add: image_contents_def info_def)
qed

theorem image_descriptor_written_witness:
  "fst (process_file fresh0 (str ''icon.png'') icon_fs) = None
   \<and> resolve (snd (process_file fresh0 (str ''icon.png'') icon_fs))
         (imageset_dir (str ''icon.png'') @ [str ''Contents.json'']) =
       Inr (File (json_dump (image_contents (str ''icon.png'')) 2)
              (fresh0 (imageset_dir (str ''icon.png'') @ [str ''Contents.json''])))"
proof -
  obtain fs' where
    "process_file fresh0 (str ''icon.png'') icon_fs =
       (fst (catalog_file fresh0
               [(str ''icon.png'', File ''PNG'' stat0), (str ''notes.txt'', File ''hello'' stat0)]
               (str ''icon.png'') []), fs')"
    using process_file_catalog [OF icon_fs_dest icon_fs_source] by blast
  then have ok: "process_file fresh0 (str ''icon.png'') icon_fs = (None, fs')"
    by (simp add: catalog_file_def)
  from image_descriptor_written [OF ok] ok show ?thesis by simp
qed

section \<open>The entries of the destination\<close>

lemma is_image_contents_json: "\<not> is_image (str ''Contents.json'')"
  by code_simp

lemma is_image_not_contents: "is_image f \<Longrightarrow> f \<noteq> str ''Contents.json''"
  using is_image_contents_json by auto

lemma container_name_not_contents: "container_name f \<noteq> str ''Contents.json''"
proof
  assume "container_name f = str ''Contents.json''"
  then have "last (container_name f) = last (str ''Contents.json'')" by simp
  then show False by (simp add: container_name_def str_def)
qed

lemma container_name_inj:
  "container_name f = container_name g \<longleftrightarrow> name_without_ext f = name_without_ext g"
  by (simp add: container_name_def)

lemma imageset_dir_eq: "imageset_dir f = dest_dir @ [container_name f]"
  by (simp add: imageset_dir_def container_name_def)

lemma catalog_file_ok:
  assumes "map_of ds (container_name f) = None" and "map_of es f = Some (File d m)"
      and "f \<noteq> str ''Contents.json''"
  shows "catalog_file fresh es f ds = (None, ds @ [container fresh (f, File d m)])"
  using assms by (simp add: catalog_file_def container_def container_name_def [symmetric])

lemma catalog_file_None:
  assumes "catalog_file fresh es f ds = (None, ds')"
  shows "map_of ds (container_name f) = None \<and> (\<exists>d m. map_of es f = Some (File d m))"
  using assms
  by (auto simp: catalog_file_def container_name_def [symmetric] Let_def
           split: option.splits node.splits)

lemma catalog_file_exists:
  assumes "map_of ds (container_name f) = Some n"
  shows "catalog_file fresh es f ds = (Some (FileExistsError (imageset_dir f)), ds)"
  using assms by (simp add: catalog_file_def container_name_def [symmetric])

lemma catalog_files_append:
  "catalog_files fresh es (xs @ ys) ds =
     (case catalog_files fresh es xs ds of
        (Some e, ds') \<Rightarrow> (Some e, ds')
      | (None, ds') \<Rightarrow> catalog_files fresh es ys ds')"
  by (induction xs arbitrary: ds) (auto split: prod.splits option.splits)

lemma map_of_snoc:
  "map_of (ds @ [(c, n)]) k = (case map_of ds k of None \<Rightarrow> (if k = c then Some n else None) | Some v \<Rightarrow> Some v)"
  by (simp add: map_add_def split: option.splits)

lemma catalog_files_ok:
  assumes "distinct (map container_name fl)"
      and "\<forall>f\<in>set fl. map_of ds (container_name f) = None
             \<and> (\<exists>d m. map_of es f = Some (File d m)) \<and> f \<noteq> str ''Contents.json''"
  shows "catalog_files fresh es fl ds =
           (None, ds @ map (\<lambda>f. container fresh (f, the (map_of es f))) fl)"
  using assms
proof (induction fl arbitrary: ds)
  case Nil
  then show ?case by simp
next
  case (Cons f fl)
  from Cons.prems obtain d m where F: "map_of es f = Some (File d m)"
    and N: "map_of ds (container_name f) = None" and C: "f \<noteq> str ''Contents.json''"
    by auto
  have step: "catalog_file fresh es f ds = (None, ds @ [container fresh (f, File d m)])"
    by (rule catalog_file_ok [OF N F C])
  have "distinct (map container_name fl)" using Cons.prems by simp
  moreover have "\<forall>g\<in>set fl. map_of (ds @ [container fresh (f, File d m)]) (container_name g) = None
             \<and> (\<exists>d m. map_of es g = Some (File d m)) \<and> g \<noteq> str ''Contents.json''"
  proof
    fix g assume g: "g \<in> set fl"
    have "container_name g \<noteq> container_name f"
      using Cons.prems(1) g by (metis distinct.simps(2) image_eqI list.simps(9) set_map)
    then show "map_of (ds @ [container fresh (f, File d m)]) (container_name g) = None
             \<and> (\<exists>d m. map_of es g = Some (File d m)) \<and> g \<noteq> str ''Contents.json''"
      using Cons.prems(2) g by (simp add: container_def map_of_snoc)
  qed
  ultimately have "catalog_files fresh es fl (ds @ [container fresh (f, File d m)]) =
      (None, (ds @ [container fresh (f, File d m)])
             @ map (\<lambda>f. container fresh (f, the (map_of es f))) fl)"
    by (rule Cons.IH)
  then show ?case using step F by simp
qed

lemma catalog_files_None:
  assumes "catalog_files fresh es fl ds = (None, ds')"
  shows "distinct (map container_name fl)
         \<and> (\<forall>f\<in>set fl. map_of ds (container_name f) = None
               \<and> (\<exists>d m. map_of es f = Some (File d m)))"
  using assms
proof (induction fl arbitrary: ds)
  case Nil
  then show ?case by simp
next
  case (Cons f fl)
  from Cons.prems obtain ds1 where step: "catalog_file fresh es f ds = (None, ds1)"
    and rest: "catalog_files fresh es fl ds1 = (None, ds')"
    by (auto split: prod.splits option.splits)
  from catalog_file_None [OF step] obtain d m where
    N: "map_of ds (container_name f) = None" and F: "map_of es f = Some (File d m)" by blast
  have ds1: "ds1 = ds @ [(container_name f, Dir (AList.update (str ''Contents.json'')
                   (File (json_dump (image_contents f) 2)
                      (fresh (imageset_dir f @ [str ''Contents.json''])))
                   [(f, File d m)]))]"
    using step N F by (simp add: catalog_file_def container_name_def [symmetric])
  have IH: "distinct (map container_name fl)
         \<and> (\<forall>g\<in>set fl. map_of ds1 (container_name g) = None
               \<and> (\<exists>d m. map_of es g = Some (File d m)))"
    by (rule Cons.IH [OF rest])
  have "\<forall>g\<in>set fl. map_of ds (container_name g) = None \<and> container_name g \<noteq> container_name f"
    using IH unfolding ds1 by (auto simp: map_of_snoc split: option.splits if_splits)
  then show ?case using IH N F by auto
qed

lemma reset_dest_source_dir:
  assumes S: "resolve fs source_dir = Inr n"
      and D: "\<forall>d m. resolve fs dest_dir \<noteq> Inr (File d m)"
  shows "\<exists>fs1. reset_dest fs = (None, fs1)"
proof (cases "resolve fs dest_dir")
  case (Inl e)
  then show ?thesis using reset_dest_source_exists [OF S] by blast
next
  case (Inr x)
  then show ?thesis using D reset_dest_dir [of fs] by (cases x) auto
qed

lemma run_source_dir:
  assumes S: "resolve fs source_dir = Inr (Dir es)"
      and D: "\<forall>d m. resolve fs dest_dir \<noteq> Inr (File d m)"
  shows "\<exists>fs'. run fresh fs =
             (fst (catalog_files fresh es (files (map fst es)) [root_entry fresh]), fs')
           \<and> resolve fs' dest_dir =
               Inr (Dir (snd (catalog_files fresh es (files (map fst es)) [root_entry fresh])))
           \<and> resolve fs' source_dir = Inr (Dir es)"
proof -
  obtain fs1 where "reset_dest fs = (None, fs1)"
    using reset_dest_source_dir [OF S D] by blast
  from run_catalog [OF this, of fresh] show ?thesis
    using S by (simp add: catalog_def)
qed

lemma map_of_selected:
  "distinct (filter P (map fst es)) \<Longrightarrow> (k, v) \<in> set es \<Longrightarrow> P k \<Longrightarrow> map_of es k = Some v"
proof (induction es)
  case Nil
  then show ?case by simp
next
  case (Cons e es)
  obtain a b where e: "e = (a, b)" by (cases e)
  show ?case
  proof (cases "k = a")
    case True
    have "(k, v) \<notin> set es"
    proof
      assume "(k, v) \<in> set es"
      then have "a \<in> set (filter P (map fst es))" using True Cons.prems(3) by force
      then show False using Cons.prems(1) True Cons.prems(3) e by simp
    qed
    then show ?thesis using Cons.prems(2) e True by simp
  next
    case False
    have "distinct (filter P (map fst es))" using Cons.prems(1) by (simp split: if_splits)
    then show ?thesis using Cons.IH Cons.prems False e by simp
  qed
qed

lemma map_selected:
  assumes "distinct (filter P (map fst es))"
  shows "map (\<lambda>f. g (f, the (map_of es f))) (filter P (map fst es)) =
         map g (filter (\<lambda>e. P (fst e)) es)"
proof -
  have "filter P (map fst es) = map fst (filter (\<lambda>e. P (fst e)) es)"
    by (simp add: filter_map comp_def)
  moreover have "\<forall>e\<in>set (filter (\<lambda>e. P (fst e)) es). g (fst e, the (map_of es (fst e))) = g e"
  proof
    fix e assume "e \<in> set (filter (\<lambda>e. P (fst e)) es)"
    then have "(fst e, snd e) \<in> set es" "P (fst e)" by simp_all
    from map_of_selected [OF assms this] show "g (fst e, the (map_of es (fst e))) = g e" by simp
  qed
  ultimately show ?thesis by (simp add: comp_def)
qed

lemma selected_files:
  assumes "\<forall>e\<in>set es. is_image (fst e) \<longrightarrow> (\<exists>d m. snd e = File d m)"
      and "distinct (files (map fst es))"
      and "f \<in> set (files (map fst es))"
  shows "\<exists>d m. map_of es f = Some (File d m)"
proof -
  from assms(3) obtain n where "(f, n) \<in> set es" "is_image f"
    by (auto simp: files_def)
  moreover from this assms(1) obtain d m where "n = File d m" by fastforce
  ultimately show ?thesis
    using map_of_selected [of is_image es f n] assms(2) by (simp add: files_def)
qed

lemma catalog_valid:
  assumes F: "\<forall>e\<in>set es. is_image (fst e) \<longrightarrow> (\<exists>d m. snd e = File d m)"
      and U: "distinct (map name_without_ext (files (map fst es)))"
  shows "catalog_files fresh es (files (map fst es)) [root_entry fresh] =
           (None, root_entry fresh # map (container fresh) (filter (\<lambda>e. is_image (fst e)) es))"
proof -
  have dn: "distinct (files (map fst es))" using U by (simp add: distinct_map)
  have dc: "distinct (map container_name (files (map fst es)))"
    using U by (simp add: distinct_map inj_on_def container_name_inj)
  have "\<forall>f\<in>set (files (map fst es)). map_of [root_entry fresh] (container_name f) = None
             \<and> (\<exists>d m. map_of es f = Some (File d m)) \<and> f \<noteq> str ''Contents.json''"
  proof
    fix f assume f: "f \<in> set (files (map fst es))"
    then have "is_image f" by (simp add: files_def)
    then show "map_of [root_entry fresh] (container_name f) = None
             \<and> (\<exists>d m. map_of es f = Some (File d m)) \<and> f \<noteq> str ''Contents.json''"
      using selected_files [OF F dn f] container_name_not_contents [of f] is_image_not_contents
      by (auto simp: root_entry_def)
  qed
  from catalog_files_ok [OF dc this, of fresh] show ?thesis
    using map_selected [of is_image es "container fresh"] dn
    by (simp add: files_def)
qed

lemma is_image_icon: "is_image (str ''icon.png'')" by code_simp
lemma is_image_notes: "\<not> is_image (str ''notes.txt'')" by code_simp
lemma name_icon: "name_without_ext (str ''icon.png'') = str ''icon''" by code_simp

lemma str_append: "str (a @ b) = str a @ str b"
  by (simp add: str_def)

text \<open>
  C1.  When the source is a directory in which every entry with an image name is a regular
  file and the image names have pairwise different names without extension, and the
  destination is not a regular file, the run completes, and the destination directory then
  holds exactly: first \<open>Contents.json\<close>, whose text is the root descriptor printed with
  indent 2, then one container per image entry of the source, in listing order, each with
  the copy and its descriptor.  The names of these entries are pairwise different.
\<close>

theorem run_valid_source:
  assumes "resolve fs source_dir = Inr (Dir es)"
      and "\<forall>d m. resolve fs dest_dir \<noteq> Inr (File d m)"
      and "\<forall>e\<in>set es. is_image (fst e) \<longrightarrow> (\<exists>d m. snd e = File d m)"
      and "distinct (map name_without_ext (files (map fst es)))"
  shows \<open>fst (run fresh fs) = None
         \<and> resolve (snd (run fresh fs)) dest_dir =
             Inr (Dir ((str ''Contents.json'',
                        File (json_dump root_contents 2) (fresh (dest_dir @ [str ''Contents.json'']))) #
                       map (container fresh) (filter (\<lambda>e. is_image (fst e)) es)))
         \<and> distinct (str ''Contents.json'' #
                       map (\<lambda>e. container_name (fst e)) (filter (\<lambda>e. is_image (fst e)) es))
         \<and> root_contents = JObject [(str ''info'',
               JObject [(str ''author'', JString (str ''xcode'')), (str ''version'', JInt 1)])]
         \<and> json_dump root_contents 2 =
             ''{\<newline>  "info": {\<newline>    "author": "xcode",\<newline>    "version": 1\<newline>  }\<newline>}''\<close>
proof -
  obtain fs' where run: "run fresh fs =
             (fst (catalog_files fresh es (files (map fst es)) [root_entry fresh]), fs')"
    and D': "resolve fs' dest_dir =
               Inr (Dir (snd (catalog_files fresh es (files (map fst es)) [root_entry fresh])))"
    using run_source_dir [OF assms(1,2)] by blast
  note cat = catalog_valid [OF assms(3,4), of fresh]
  have a: "fst (run fresh fs) = None" using run cat by simp
  have b: "resolve (snd (run fresh fs)) dest_dir =
             Inr (Dir ((str ''Contents.json'',
                        File (json_dump root_contents 2) (fresh (dest_dir @ [str ''Contents.json'']))) #
                       map (container fresh) (filter (\<lambda>e. is_image (fst e)) es)))"
    using run D' cat by (simp add: root_entry_def)
  have "map (\<lambda>e. container_name (fst e)) (filter (\<lambda>e. is_image (fst e)) es) =
        map container_name (files (map fst es))"
    by (simp add: files_def filter_map comp_def)
  moreover have "distinct (map container_name (files (map fst es)))"
    using assms(4) by (simp add: distinct_map inj_on_def container_name_inj)
  moreover have "str ''Contents.json'' \<notin> set (map container_name (files (map fst es)))"
  proof
    assume "str ''Contents.json'' \<in> set (map container_name (files (map fst es)))"
    then obtain x where "container_name x = str ''Contents.json''" by auto
    then show False using container_name_not_contents by blast
  qed
  ultimately have c: "distinct (str ''Contents.json'' #
                       map (\<lambda>e. container_name (fst e)) (filter (\<lambda>e. is_image (fst e)) es))"
    by (simp only: distinct.simps simp_thms)
  show ?thesis using a b c
    by (simp only: root_text simp_thms) (simp add: root_contents_def info_def)
qed

theorem run_valid_source_witness:
  "fst (run fresh0 icon_fs) = None
   \<and> resolve (snd (run fresh0 icon_fs)) dest_dir =
       Inr (Dir [(str ''Contents.json'',
                  File (json_dump root_contents 2) (fresh0 (dest_dir @ [str ''Contents.json'']))),
                 (str ''icon.imageset'',
                  Dir [(str ''icon.png'', File ''PNG'' stat0),
                       (str ''Contents.json'',
                        File (json_dump (image_contents (str ''icon.png'')) 2)
                          (fresh0 (imageset_dir (str ''icon.png'') @ [str ''Contents.json''])))])])"
proof -
  have F: "\<forall>e\<in>set [(str ''icon.png'', File ''PNG'' stat0), (str ''notes.txt'', File ''hello'' stat0)].
             is_image (fst e) \<longrightarrow> (\<exists>d m. snd e = File d m)"
    by simp
  have U: "distinct (map name_without_ext
             (files (map fst [(str ''icon.png'', File ''PNG'' stat0),
                              (str ''notes.txt'', File ''hello'' stat0)])))"
    by (simp add: files_def is_image_icon is_image_notes)
  have D: "\<forall>d m. resolve icon_fs dest_dir \<noteq> Inr (File d m)"
    by (simp add: icon_fs_dest)
  from run_valid_source [OF icon_fs_source D F U, of fresh0] show ?thesis
    by (simp add: is_image_icon is_image_notes container_def container_name_def name_icon
                  str_append [symmetric])
qed

section \<open>Runs that complete\<close>

lemma catalog_valid_keys:
  assumes "distinct (map name_without_ext (files (map fst es)))"
  shows "distinct (map fst (root_entry fresh #
            map (container fresh) (filter (\<lambda>e. is_image (fst e)) es)))"
proof -
  have "map fst (map (container fresh) (filter (\<lambda>e. is_image (fst e)) es)) =
        map container_name (files (map fst es))"
    by (simp add: files_def filter_map comp_def container_def)
  moreover have "distinct (map container_name (files (map fst es)))"
    using assms by (simp add: distinct_map inj_on_def container_name_inj)
  moreover have "str ''Contents.json'' \<notin> set (map container_name (files (map fst es)))"
  proof
    assume "str ''Contents.json'' \<in> set (map container_name (files (map fst es)))"
    then obtain x where "container_name x = str ''Contents.json''" by auto
    then show False using container_name_not_contents by blast
  qed
  ultimately show ?thesis by (simp only: list.map distinct.simps root_entry_def fst_conv simp_thms)
qed

lemma catalog_None_valid:
  assumes "catalog_files fresh es (files (map fst es)) ds = (None, ds')"
  shows "(\<forall>e\<in>set es. is_image (fst e) \<longrightarrow> (\<exists>d m. snd e = File d m))
         \<and> distinct (map name_without_ext (files (map fst es)))"
proof -
  from catalog_files_None [OF assms]
  have dc: "distinct (map container_name (files (map fst es)))"
    and fl: "\<forall>f\<in>set (files (map fst es)). \<exists>d m. map_of es f = Some (File d m)"
    by blast+
  have U: "distinct (map name_without_ext (files (map fst es)))"
    using dc by (simp add: distinct_map inj_on_def container_name_inj)
  then have dn: "distinct (filter is_image (map fst es))"
    by (simp add: distinct_map files_def)
  have "\<exists>d m. snd e = File d m" if e: "e \<in> set es" and i: "is_image (fst e)" for e
  proof -
    have "(fst e, snd e) \<in> set es" using e by simp
    from map_of_selected [OF dn this i] have "map_of es (fst e) = Some (snd e)" .
    moreover have "fst e \<in> set (files (map fst es))" using e i by (simp add: files_def)
    ultimately show ?thesis using fl by (metis option.inject)
  qed
  then show ?thesis using U by blast
qed

lemma container_lookup:
  assumes U: "distinct (map name_without_ext (files (map fst es)))"
      and e: "(f, n) \<in> set es" and i: "is_image f"
  shows "map_of (root_entry fresh # map (container fresh) (filter (\<lambda>e. is_image (fst e)) es))
           (container_name f) =
         Some (Dir [(f, n),
                    (str ''Contents.json'',
                     File (json_dump (image_contents f) 2)
                       (fresh (imageset_dir f @ [str ''Contents.json''])))])"
proof -
  have "container fresh (f, n) \<in>
          set (root_entry fresh # map (container fresh) (filter (\<lambda>e. is_image (fst e)) es))"
    using e i by force
  then have "(container_name f, Dir [(f, n),
                    (str ''Contents.json'',
                     File (json_dump (image_contents f) 2)
                       (fresh (imageset_dir f @ [str ''Contents.json''])))]) \<in>
          set (root_entry fresh # map (container fresh) (filter (\<lambda>e. is_image (fst e)) es))"
    by (simp add: container_def)
  with catalog_valid_keys [OF U, of fresh] show ?thesis by (rule map_of_is_SomeI)
qed

lemma run_source_unchanged:
  "resolve (snd (run fresh fs)) source_dir = resolve fs source_dir"
proof (cases "reset_dest fs")
  case (Pair r fs1)
  show ?thesis
  proof (cases r)
    case None
    then show ?thesis using run_catalog [of fs fs1 fresh] Pair by auto
  next
    case (Some e)
    then show ?thesis using run_reset_failed [of fs e fs1 fresh] Pair by simp
  qed
qed

text \<open>A run over a source directory completes exactly when its image entries are valid.\<close>

lemma run_completes:
  assumes S: "resolve fs source_dir = Inr (Dir es)" and ok: "fst (run fresh fs) = None"
  shows "(\<forall>e\<in>set es. is_image (fst e) \<longrightarrow> (\<exists>d m. snd e = File d m))
         \<and> distinct (map name_without_ext (files (map fst es)))
         \<and> resolve (snd (run fresh fs)) dest_dir =
             Inr (Dir (root_entry fresh #
                       map (container fresh) (filter (\<lambda>e. is_image (fst e)) es)))"
proof -
  have D: "\<forall>d m. resolve fs dest_dir \<noteq> Inr (File d m)"
  proof (intro allI notI)
    fix d m assume "resolve fs dest_dir = Inr (File d m)"
    from reset_dest_file [OF this] have "run fresh fs = (Some (NotADirectoryError dest_dir), fs)"
      by (rule run_reset_failed)
    then show False using ok by simp
  qed
  obtain fs' where run: "run fresh fs =
             (fst (catalog_files fresh es (files (map fst es)) [root_entry fresh]), fs')"
    and D': "resolve fs' dest_dir =
               Inr (Dir (snd (catalog_files fresh es (files (map fst es)) [root_entry fresh])))"
    using run_source_dir [OF S D] by blast
  have "catalog_files fresh es (files (map fst es)) [root_entry fresh] =
          (None, snd (catalog_files fresh es (files (map fst es)) [root_entry fresh]))"
    using run ok by (simp add: prod_eq_iff)
  from catalog_None_valid [OF this] have
    F: "\<forall>e\<in>set es. is_image (fst e) \<longrightarrow> (\<exists>d m. snd e = File d m)"
    and U: "distinct (map name_without_ext (files (map fst es)))" by blast+
  show ?thesis using F U run D' catalog_valid [OF F U, of fresh] by simp
qed

lemma icon_fs_completes: "fst (run fresh0 icon_fs) = None"
proof -
  have F: "\<forall>e\<in>set [(str ''icon.png'', File ''PNG'' stat0), (str ''notes.txt'', File ''hello'' stat0)].
             is_image (fst e) \<longrightarrow> (\<exists>d m. snd e = File d m)"
    by simp
  have U: "distinct (map name_without_ext
             (files (map fst [(str ''icon.png'', File ''PNG'' stat0),
                              (str ''notes.txt'', File ''hello'' stat0)])))"
    by (simp add: files_def is_image_icon is_image_notes)
  have D: "\<forall>d m. resolve icon_fs dest_dir \<noteq> Inr (File d m)"
    by (simp add: icon_fs_dest)
  show ?thesis
    using run_source_dir [OF icon_fs_source D, of fresh0] catalog_valid [OF F U, of fresh0]
    by auto
qed

lemma is_image_dotpng: "is_image (str ''.png'')" by code_simp
lemma splitext_dotpng: "splitext (str ''.png'') = (str ''.png'', [])" by code_simp

lemma enc_dotpng: \<open>encode_basestring_ascii (str ''.png'') = ''".png"''\<close>
  by code_simp

text \<open>
  C10.  The name \<open>.png\<close> passes the suffix test, \<open>splitext\<close> takes nothing off it, and so
  its container is \<open>.png.imageset\<close>.  When a run over a source directory that holds a
  regular file of that name completes, the container holds exactly the copy, under the
  name \<open>.png\<close>, and the descriptor, whose first image entry has the file name \<open>.png\<close>.
\<close>

theorem dotfile_named_like_suffix:
  assumes "resolve fs source_dir = Inr (Dir es)"
      and "(str ''.png'', File d m) \<in> set es"
      and "fst (run fresh fs) = None"
  shows \<open>is_image (str ''.png'')
         \<and> splitext (str ''.png'') = (str ''.png'', [])
         \<and> imageset_dir (str ''.png'') = dest_dir @ [str ''.png.imageset'']
         \<and> resolve (snd (run fresh fs)) (dest_dir @ [str ''.png.imageset'']) =
             Inr (Dir [(str ''.png'', File d m),
                       (str ''Contents.json'',
                        File (json_dump (image_contents (str ''.png'')) 2)
                          (fresh (dest_dir @ [str ''.png.imageset'', str ''Contents.json''])))])
         \<and> json_dump (image_contents (str ''.png'')) 2 =
             ''{\<newline>  "images": [\<newline>    {\<newline>      "filename": ".png",\<newline>      "idiom": "universal",\<newline>      "scale": "1x"\<newline>    },\<newline>    {\<newline>      "idiom": "universal",\<newline>      "scale": "2x"\<newline>    },\<newline>    {\<newline>      "idiom": "universal",\<newline>      "scale": "3x"\<newline>    }\<newline>  ],\<newline>  "info": {\<newline>    "author": "xcode",\<newline>    "version": 1\<newline>  }\<newline>}''\<close>
proof -
  have cn: "container_name (str ''.png'') = str ''.png.imageset''"
    by (simp add: container_name_def name_without_ext_def splitext_dotpng str_append [symmetric])
  have idir: "imageset_dir (str ''.png'') = dest_dir @ [str ''.png.imageset'']"
    by (simp add: imageset_dir_eq cn)
  from run_completes [OF assms(1,3)] have
    U: "distinct (map name_without_ext (files (map fst es)))"
    and D': "resolve (snd (run fresh fs)) dest_dir =
             Inr (Dir (root_entry fresh #
                       map (container fresh) (filter (\<lambda>e. is_image (fst e)) es)))"
    by blast+
  have c: "resolve (snd (run fresh fs)) (dest_dir @ [str ''.png.imageset'']) =
             Inr (Dir [(str ''.png'', File d m),
                       (str ''Contents.json'',
                        File (json_dump (image_contents (str ''.png'')) 2)
                          (fresh (dest_dir @ [str ''.png.imageset'', str ''Contents.json''])))])"
    using D' container_lookup [OF U assms(2) is_image_dotpng, of fresh]
    by (simp add: resolve_append [of _ dest_dir] cn idir)
  show ?thesis using c idir
    by (simp only: is_image_dotpng splitext_dotpng image_text enc_dotpng simp_thms) simp
qed

lemma dotpng_fs_source:
  "resolve dotpng_fs source_dir = Inr (Dir [(str ''.png'', File ''hidden'' stat0)])"
  unfolding dotpng_fs_def source_dir_eq by (simp add: resolve_under)

lemma dotpng_fs_dest: "resolve dotpng_fs dest_dir = Inr (Dir [])"
  unfolding dotpng_fs_def dest_dir_eq by (simp add: resolve_under assets_neq)

lemma dotpng_fs_completes: "fst (run fresh0 dotpng_fs) = None"
proof -
  have F: "\<forall>e\<in>set [(str ''.png'', File ''hidden'' stat0)].
             is_image (fst e) \<longrightarrow> (\<exists>d m. snd e = File d m)"
    by simp
  have U: "distinct (map name_without_ext (files (map fst [(str ''.png'', File ''hidden'' stat0)])))"
    by (simp add: files_def)
  have D: "\<forall>d m. resolve dotpng_fs dest_dir \<noteq> Inr (File d m)"
    by (simp add: dotpng_fs_dest)
  show ?thesis
    using run_source_dir [OF dotpng_fs_source D, of fresh0] catalog_valid [OF F U, of fresh0]
    by auto
qed

theorem dotfile_named_like_suffix_witness:
  "resolve dotpng_fs source_dir = Inr (Dir [(str ''.png'', File ''hidden'' stat0)])
   \<and> fst (run fresh0 dotpng_fs) = None
   \<and> resolve (snd (run fresh0 dotpng_fs)) (dest_dir @ [str ''.png.imageset'']) =
       Inr (Dir [(str ''.png'', File ''hidden'' stat0),
                 (str ''Contents.json'',
                  File (json_dump (image_contents (str ''.png'')) 2)
                    (fresh0 (dest_dir @ [str ''.png.imageset'', str ''Contents.json''])))])"
proof -
  have m: "(str ''.png'', File ''hidden'' stat0) \<in> set [(str ''.png'', File ''hidden'' stat0)]"
    by simp
  from dotfile_named_like_suffix [OF dotpng_fs_source m dotpng_fs_completes]
  show ?thesis using dotpng_fs_source dotpng_fs_completes by simp
qed

lemma is_image_logo_png: "is_image (str ''logo.png'')" by code_simp
lemma is_image_logo_jpg: "is_image (str ''logo.jpg'')" by code_simp
lemma name_logo_png: "name_without_ext (str ''logo.png'') = str ''logo''" by code_simp
lemma name_logo_jpg: "name_without_ext (str ''logo.jpg'') = str ''logo''" by code_simp

lemma logo_fs_source:
  "resolve logo_fs source_dir =
     Inr (Dir [(str ''logo.png'', File ''A'' stat0), (str ''logo.jpg'', File ''B'' stat0)])"
  unfolding logo_fs_def source_dir_eq by (simp add: resolve_under)

lemma logo_fs_dest: "resolve logo_fs dest_dir = Inl ENOENT"
  unfolding logo_fs_def dest_dir_eq by (simp add: resolve_under assets_neq)

text \<open>
  C6.  Let the selected names of a source directory be \<open>pre @ f2 # post\<close>, where some
  name \<open>f1\<close> of \<open>pre\<close> has the same name without extension as \<open>f2\<close>.  Then the run
  fails.  If moreover the destination is not a regular file and the names of \<open>pre\<close> are
  regular files of the source with pairwise different names without extension (so that the
  loop reaches \<open>f2\<close>), the exception is the \<open>FileExistsError\<close> of \<open>os.makedirs\<close> for
  the container of \<open>f2\<close>, and the destination holds the root descriptor and the containers
  of \<open>pre\<close>, nothing for \<open>f2\<close> or \<open>post\<close>.
\<close>

theorem duplicate_basename_fails:
  assumes S: "resolve fs source_dir = Inr (Dir es)"
      and L: "files (map fst es) = pre @ f2 # post"
      and f1: "f1 \<in> set pre" "name_without_ext f1 = name_without_ext f2"
  shows "fst (run fresh fs) \<noteq> None
         \<and> ((\<forall>d m. resolve fs dest_dir \<noteq> Inr (File d m))
              \<and> (\<forall>f\<in>set pre. \<exists>d m. map_of es f = Some (File d m))
              \<and> distinct (map name_without_ext pre) \<longrightarrow>
              fst (run fresh fs) = Some (FileExistsError (imageset_dir f2))
              \<and> resolve (snd (run fresh fs)) dest_dir =
                  Inr (Dir (root_entry fresh #
                            map (\<lambda>f. container fresh (f, the (map_of es f))) pre)))"
proof (intro conjI impI)
  show "fst (run fresh fs) \<noteq> None"
  proof
    assume "fst (run fresh fs) = None"
    from run_completes [OF S this]
    have "distinct (map name_without_ext (files (map fst es)))" by blast
    then show False using L f1 by (auto simp: image_iff)
  qed
next
  assume H: "(\<forall>d m. resolve fs dest_dir \<noteq> Inr (File d m))
              \<and> (\<forall>f\<in>set pre. \<exists>d m. map_of es f = Some (File d m))
              \<and> distinct (map name_without_ext pre)"
  then have D: "\<forall>d m. resolve fs dest_dir \<noteq> Inr (File d m)"
    and F: "\<forall>f\<in>set pre. \<exists>d m. map_of es f = Some (File d m)"
    and U: "distinct (map name_without_ext pre)" by blast+
  obtain fs' where run: "run fresh fs =
             (fst (catalog_files fresh es (files (map fst es)) [root_entry fresh]), fs')"
    and D': "resolve fs' dest_dir =
               Inr (Dir (snd (catalog_files fresh es (files (map fst es)) [root_entry fresh])))"
    using run_source_dir [OF S D] by blast
  define ds1 where
    "ds1 = [root_entry fresh] @ map (\<lambda>f. container fresh (f, the (map_of es f))) pre"
  have dc: "distinct (map container_name pre)"
    using U by (simp add: distinct_map inj_on_def container_name_inj)
  have "\<forall>f\<in>set pre. map_of [root_entry fresh] (container_name f) = None
             \<and> (\<exists>d m. map_of es f = Some (File d m)) \<and> f \<noteq> str ''Contents.json''"
  proof
    fix f assume f: "f \<in> set pre"
    then have "f \<in> set (files (map fst es))" using L by simp
    then have "is_image f" by (simp add: files_def)
    then show "map_of [root_entry fresh] (container_name f) = None
             \<and> (\<exists>d m. map_of es f = Some (File d m)) \<and> f \<noteq> str ''Contents.json''"
      using F f container_name_not_contents [of f] is_image_not_contents
      by (auto simp: root_entry_def)
  qed
  from catalog_files_ok [OF dc this, of fresh]
  have pre: "catalog_files fresh es pre [root_entry fresh] = (None, ds1)"
    by (simp add: ds1_def)
  have "container_name f1 \<in> fst ` set ds1"
    using f1(1) by (force simp: ds1_def container_def)
  then have "container_name f2 \<in> fst ` set ds1"
    using f1(2) by (simp add: container_name_def)
  then obtain n where "map_of ds1 (container_name f2) = Some n"
    using map_of_eq_None_iff [of ds1 "container_name f2"] by (cases "map_of ds1 (container_name f2)") auto
  from catalog_file_exists [OF this, of fresh es]
  have "catalog_files fresh es (pre @ f2 # post) [root_entry fresh] =
          (Some (FileExistsError (imageset_dir f2)), ds1)"
    using pre by (simp add: catalog_files_append)
  then show "fst (run fresh fs) = Some (FileExistsError (imageset_dir f2))"
    and "resolve (snd (run fresh fs)) dest_dir =
                  Inr (Dir (root_entry fresh #
                            map (\<lambda>f. container fresh (f, the (map_of es f))) pre))"
    using run D' L by (simp_all add: ds1_def)
qed

theorem duplicate_basename_fails_witness:
  "fst (run fresh0 logo_fs) = Some (FileExistsError (dest_dir @ [str ''logo.imageset'']))
   \<and> resolve (snd (run fresh0 logo_fs)) dest_dir =
       Inr (Dir [root_entry fresh0,
                 (str ''logo.imageset'',
                  Dir [(str ''logo.png'', File ''A'' stat0),
                       (str ''Contents.json'',
                        File (json_dump (image_contents (str ''logo.png'')) 2)
                          (fresh0 (imageset_dir (str ''logo.png'') @ [str ''Contents.json''])))])])"
proof -
  have L: "files (map fst [(str ''logo.png'', File ''A'' stat0), (str ''logo.jpg'', File ''B'' stat0)])
             = [str ''logo.png''] @ str ''logo.jpg'' # []"
    by (simp add: files_def is_image_logo_png is_image_logo_jpg)
  have m: "str ''logo.png'' \<in> set [str ''logo.png'']" by simp
  have n: "name_without_ext (str ''logo.png'') = name_without_ext (str ''logo.jpg'')"
    by (simp add: name_logo_png name_logo_jpg)
  have H: "(\<forall>d m. resolve logo_fs dest_dir \<noteq> Inr (File d m))
      \<and> (\<forall>f\<in>set [str ''logo.png''].
            \<exists>d m. map_of [(str ''logo.png'', File ''A'' stat0), (str ''logo.jpg'', File ''B'' stat0)] f
                     = Some (File d m))
      \<and> distinct (map name_without_ext [str ''logo.png''])"
    by (simp add: logo_fs_dest)
  from duplicate_basename_fails [OF logo_fs_source L m n, of fresh0] H
  show ?thesis
    by (simp add: imageset_dir_eq container_def container_name_def name_logo_png name_logo_jpg
                  str_append [symmetric])
qed

section \<open>A source that cannot be listed\<close>

lemma nosrc_fs_source: "resolve nosrc_fs source_dir = Inl ENOENT"
  unfolding nosrc_fs_def source_dir_eq by (simp add: resolve_under)

lemma nosrc_fs_parent: "resolve nosrc_fs parent_dir = Inr (Dir [])"
  using resolve_under [of parent_dir "Dir []" "[]"] by (simp add: nosrc_fs_def)

lemma nosrc_fs_reset:
  "reset_dest nosrc_fs = (None, put nosrc_fs dest_dir (Some (Dir [])))"
proof -
  have D: "resolve nosrc_fs dest_dir = Inl ENOENT"
    unfolding nosrc_fs_def dest_dir_eq by (simp add: resolve_under)
  have "makedirs nosrc_fs dest_dir False = Inr (put nosrc_fs dest_dir (Some (Dir [])))"
    using makedirs_child [OF nosrc_fs_parent, of "str ''Assets.xcassets''"]
    by (simp add: dest_dir_eq)
  then show ?thesis using D by (simp add: reset_dest_absent)
qed

lemma run_unlistable:
  assumes R: "reset_dest fs = (None, fs1)"
      and N: "\<forall>es. resolve fs source_dir \<noteq> Inr (Dir es)"
  shows "fst (run fresh fs) =
           Some (case resolve fs source_dir of
                   Inl e \<Rightarrow> oserror e source_dir
                 | Inr n \<Rightarrow> NotADirectoryError source_dir)
         \<and> resolve (snd (run fresh fs)) dest_dir = Inr (Dir [root_entry fresh])"
proof -
  obtain fs' where run: "run fresh fs = (fst (catalog fresh (resolve fs source_dir)), fs')"
    and D: "resolve fs' dest_dir = Inr (Dir (snd (catalog fresh (resolve fs source_dir))))"
    using run_catalog [OF R, of fresh] by blast
  show ?thesis
  proof (cases "resolve fs source_dir")
    case (Inl e)
    then show ?thesis using run D by (simp add: catalog_def)
  next
    case (Inr n)
    then show ?thesis using run D N by (cases n) (simp_all add: catalog_def)
  qed
qed

text \<open>
  C2, as the code has it.  When the reset of the destination has succeeded and the source
  path is missing or is not a directory, the run fails in \<open>os.listdir\<close> with the error of
  the source path (\<open>FileNotFoundError\<close> when it is missing, \<open>NotADirectoryError\<close> when it
  is a file).  At that moment the destination directory holds exactly one entry, the root
  descriptor \<open>Contents.json\<close>, which is written before the source is listed; no container
  and no image descriptor exists; the source path resolves as before.
\<close>

theorem unlistable_source_fails:
  assumes "reset_dest fs = (None, fs1)"
      and "\<forall>es. resolve fs source_dir \<noteq> Inr (Dir es)"
  shows "fst (run fresh fs) =
           Some (case resolve fs source_dir of
                   Inl ENOENT \<Rightarrow> FileNotFoundError source_dir
                 | Inl ENOTDIR \<Rightarrow> NotADirectoryError source_dir
                 | Inr n \<Rightarrow> NotADirectoryError source_dir)
         \<and> resolve (snd (run fresh fs)) dest_dir =
             Inr (Dir [(str ''Contents.json'',
                        File (json_dump root_contents 2)
                          (fresh (dest_dir @ [str ''Contents.json''])))])
         \<and> resolve (snd (run fresh fs)) source_dir = resolve fs source_dir"
  using run_unlistable [OF assms, of fresh] run_source_unchanged [of fresh fs]
  by (simp add: root_entry_def oserror_def split: sum.splits errno.splits)

theorem unlistable_source_fails_witness:
  "reset_dest nosrc_fs = (None, put nosrc_fs dest_dir (Some (Dir [])))
   \<and> resolve nosrc_fs source_dir = Inl ENOENT
   \<and> fst (run fresh0 nosrc_fs) = Some (FileNotFoundError source_dir)
   \<and> resolve (snd (run fresh0 nosrc_fs)) dest_dir =
       Inr (Dir [(str ''Contents.json'',
                  File (json_dump root_contents 2) (fresh0 (dest_dir @ [str ''Contents.json''])))])"
proof -
  have N: "\<forall>es. resolve nosrc_fs source_dir \<noteq> Inr (Dir es)"
    by (simp add: nosrc_fs_source)
  from unlistable_source_fails [OF nosrc_fs_reset N, of fresh0]
  show ?thesis using nosrc_fs_reset nosrc_fs_source by simp
qed

text \<open>
  The claim as stated fails: with a missing source the run ends in \<open>FileNotFoundError\<close>,
  and the root descriptor has been written by then.
\<close>

theorem unlistable_source_counterexample:
  "fst (run fresh0 nosrc_fs) = Some (FileNotFoundError source_dir)
   \<and> resolve (snd (run fresh0 nosrc_fs)) (dest_dir @ [str ''Contents.json'']) =
       Inr (File (json_dump root_contents 2) (fresh0 (dest_dir @ [str ''Contents.json''])))"
proof -
  have N: "\<forall>es. resolve nosrc_fs source_dir \<noteq> Inr (Dir es)"
    by (simp add: nosrc_fs_source)
  from run_unlistable [OF nosrc_fs_reset N, of fresh0]
  show ?thesis
    by (simp add: nosrc_fs_source oserror_def root_entry_def resolve_append [of _ dest_dir])
qed

section \<open>The destination before the run\<close>

lemma reset_dest_dir_eq:
  assumes D: "resolve fs dest_dir = Inr (Dir ds)"
  shows "reset_dest fs = (None, put (put fs dest_dir None) dest_dir (Some (Dir [])))
         \<and> resolve (put fs dest_dir None) dest_dir = Inl ENOENT"
proof -
  define A where "A = str ''Assets.xcassets''"
  have dd: "dest_dir = parent_dir @ [A]" by (simp add: dest_dir_eq A_def)
  obtain ps where P: "resolve fs parent_dir = Inr (Dir ps)"
    using resolve_snoc_Inr [of fs parent_dir A "Dir ds"] D dd by auto
  define fsr where "fsr = put fs dest_dir None"
  have rm: "rmtree fs dest_dir = Inr fsr"
    using D by (simp add: rmtree_def fsr_def)
  have Pr: "resolve fsr parent_dir = Inr (Dir (AList.delete A ps))"
    using resolve_put_below [of "[A]" fs parent_dir None] P by (simp add: fsr_def dd)
  have free: "map_of (AList.delete A ps) A = None"
    by (simp add: delete_conv')
  have gone: "resolve fsr dest_dir = Inl ENOENT"
    using Pr free by (simp add: dd resolve_append)
  have mk: "makedirs fsr dest_dir False = Inr (put fsr dest_dir (Some (Dir [])))"
    using makedirs_child [OF Pr, of A] free by (simp add: dd)
  have "reset_dest fs = (None, put fsr dest_dir (Some (Dir [])))"
    using D rm mk by (simp add: reset_dest_def exists_def)
  then show ?thesis using gone by (simp add: fsr_def)
qed

text \<open>
  C3, as the code has it.  When the destination path is a directory, whatever it holds,
  lines 8 to 10 raise nothing: \<open>rmtree\<close> removes the whole tree, so that the path no
  longer exists, and \<open>makedirs\<close> then creates it as an empty directory.
\<close>

theorem reset_existing_directory:
  assumes "resolve fs dest_dir = Inr (Dir ds)"
  shows "reset_dest fs = (None, put (put fs dest_dir None) dest_dir (Some (Dir [])))
         \<and> rmtree fs dest_dir = Inr (put fs dest_dir None)
         \<and> resolve (put fs dest_dir None) dest_dir = Inl ENOENT
         \<and> resolve (snd (reset_dest fs)) dest_dir = Inr (Dir [])"
  using reset_dest_dir_eq [OF assms] reset_dest_dir [OF assms] assms
  by (auto simp: rmtree_def)

lemma olddest_fs_dest:
  "resolve olddest_fs dest_dir = Inr (Dir [(str ''stale.txt'', File ''old'' stat0)])"
  unfolding olddest_fs_def dest_dir_eq by (simp add: resolve_under)

theorem reset_existing_directory_witness:
  "resolve olddest_fs dest_dir = Inr (Dir [(str ''stale.txt'', File ''old'' stat0)])
   \<and> fst (reset_dest olddest_fs) = None
   \<and> resolve (snd (reset_dest olddest_fs)) dest_dir = Inr (Dir [])"
proof -
  from reset_existing_directory [OF olddest_fs_dest]
  have a: "reset_dest olddest_fs =
             (None, put (put olddest_fs dest_dir None) dest_dir (Some (Dir [])))"
    and b: "resolve (snd (reset_dest olddest_fs)) dest_dir = Inr (Dir [])" by blast+
  have "fst (reset_dest olddest_fs) = None" by (simp only: a fst_conv)
  then show ?thesis using b olddest_fs_dest by blast
qed

lemma destfile_fs_dest: "resolve destfile_fs dest_dir = Inr (File ''old'' stat0)"
  unfolding destfile_fs_def dest_dir_eq by (simp add: resolve_under assets_neq)

text \<open>
  The claim as stated fails when the destination path is a regular file: \<open>rmtree\<close> raises
  \<open>NotADirectoryError\<close>, the run ends there, and the file is still in place.
\<close>

theorem reset_existing_file_counterexample:
  "resolve destfile_fs dest_dir = Inr (File ''old'' stat0)
   \<and> run fresh0 destfile_fs = (Some (NotADirectoryError dest_dir), destfile_fs)"
  using run_reset_failed [OF reset_dest_file [OF destfile_fs_dest], of fresh0] destfile_fs_dest
  by simp

section \<open>Entries of the source that are not selected\<close>

lemma catalog_file_cong:
  assumes "map_of es f = map_of es' f"
  shows "catalog_file fresh es f ds = catalog_file fresh es' f ds"
  unfolding catalog_file_def assms by (rule refl)

lemma catalog_files_cong:
  "\<forall>f\<in>set fl. map_of es f = map_of es' f \<Longrightarrow>
   catalog_files fresh es fl ds = catalog_files fresh es' fl ds"
proof (induction fl arbitrary: ds)
  case Nil
  show ?case by simp
next
  case (Cons f fl)
  have step: "catalog_file fresh es f ds = catalog_file fresh es' f ds"
    by (rule catalog_file_cong) (use Cons.prems in simp)
  have rest: "catalog_files fresh es fl ds' = catalog_files fresh es' fl ds'" for ds'
    by (rule Cons.IH) (use Cons.prems in simp)
  show ?case
    by (simp only: catalog_files.simps step rest)
qed

lemma map_of_filter_keep:
  "\<forall>v. (k, v) \<in> set es \<longrightarrow> Q (k, v) \<Longrightarrow> map_of (filter Q es) k = map_of es k"
  by (induction es) auto

text \<open>
  Dropping from the source directory any entries whose names are not image names changes
  neither the outcome of the run nor the destination.
\<close>

lemma run_ignores:
  assumes S: "resolve fs source_dir = Inr (Dir es)"
      and Q: "\<forall>e\<in>set es. is_image (fst e) \<longrightarrow> Q e"
  shows "fst (run fresh (put fs source_dir (Some (Dir (filter Q es))))) = fst (run fresh fs)
         \<and> resolve (snd (run fresh (put fs source_dir (Some (Dir (filter Q es)))))) dest_dir =
             resolve (snd (run fresh fs)) dest_dir"
proof -
  define gs where "gs = put fs source_dir (Some (Dir (filter Q es)))"
  obtain ps where P: "resolve fs parent_dir = Inr (Dir ps)"
    using resolve_snoc_Inr [of fs parent_dir "str ''Assets''" "Dir es"] S source_dir_eq by auto
  have S': "resolve gs source_dir = Inr (Dir (filter Q es))"
    unfolding gs_def source_dir_eq by (rule resolve_put_new [OF P])
  have D': "resolve gs dest_dir = resolve fs dest_dir"
    using resolve_put_diverge [OF assets_neq [symmetric], of fs parent_dir "[]" _ "[]"]
    by (simp add: gs_def source_dir_eq dest_dir_eq)
  have fl: "files (map fst (filter Q es)) = files (map fst es)"
  proof -
    have "filter (\<lambda>e. is_image (fst e)) (filter Q es) = filter (\<lambda>e. is_image (fst e)) es"
      using Q by (auto intro: filter_cong)
    then have "map fst (filter (\<lambda>e. is_image (fst e)) (filter Q es)) =
               map fst (filter (\<lambda>e. is_image (fst e)) es)" by simp
    then show ?thesis by (simp add: files_def filter_map comp_def)
  qed
  have mo: "\<forall>f\<in>set (files (map fst es)). map_of (filter Q es) f = map_of es f"
  proof
    fix f assume "f \<in> set (files (map fst es))"
    then have "is_image f" by (simp add: files_def)
    then have "\<forall>v. (f, v) \<in> set es \<longrightarrow> Q (f, v)" using Q by auto
    then show "map_of (filter Q es) f = map_of es f" by (rule map_of_filter_keep)
  qed
  have cat: "catalog_files fresh (filter Q es) (files (map fst (filter Q es))) [root_entry fresh]
           = catalog_files fresh es (files (map fst es)) [root_entry fresh]"
    unfolding fl by (rule catalog_files_cong [OF mo])
  show ?thesis
  proof (cases "\<exists>d m. resolve fs dest_dir = Inr (File d m)")
    case True
    then obtain d m where f: "resolve fs dest_dir = Inr (File d m)" by blast
    then have g: "resolve gs dest_dir = Inr (File d m)" using D' by simp
    have "run fresh fs = (Some (NotADirectoryError dest_dir), fs)"
      using run_reset_failed [OF reset_dest_file [OF f]] .
    moreover have "run fresh gs = (Some (NotADirectoryError dest_dir), gs)"
      using run_reset_failed [OF reset_dest_file [OF g]] .
    ultimately show ?thesis using D' by (simp add: gs_def [symmetric])
  next
    case False
    then have nf: "\<forall>d m. resolve fs dest_dir \<noteq> Inr (File d m)" by blast
    then have ng: "\<forall>d m. resolve gs dest_dir \<noteq> Inr (File d m)" using D' by simp
    from run_source_dir [OF S nf, of fresh] run_source_dir [OF S' ng, of fresh] cat
    show ?thesis by (auto simp: gs_def [symmetric])
  qed
qed

lemma is_image_a_png: "is_image (str ''a.png'')" by code_simp
lemma name_a_png: "name_without_ext (str ''a.png'') = str ''a''" by code_simp
lemma is_image_old: "\<not> is_image (str ''old'')" by code_simp

lemma subdir_fs_source:
  "resolve subdir_fs source_dir = Inr (Dir [(str ''a.png'', Dir [])])"
  unfolding subdir_fs_def source_dir_eq by (simp add: resolve_under)

lemma subdir_fs_dest: "resolve subdir_fs dest_dir = Inl ENOENT"
  unfolding subdir_fs_def dest_dir_eq by (simp add: resolve_under assets_neq)

lemma mixed_fs_source:
  "resolve mixed_fs source_dir =
     Inr (Dir [(str ''old'', Dir [(str ''x.png'', File ''X'' stat0)]),
               (str ''icon.png'', File ''PNG'' stat0),
               (str ''notes.txt'', File ''hello'' stat0)])"
  unfolding mixed_fs_def source_dir_eq by (simp add: resolve_under)

text \<open>
  C4, as the code has it.  The selection looks at names only.  A subdirectory of the source
  whose name is not an image name is never selected, and the run is the same without it:
  taking all such subdirectories out of the source directory changes neither the outcome
  nor the destination.
\<close>

theorem plain_subdirectories_ignored:
  assumes "resolve fs source_dir = Inr (Dir es)"
  shows "(\<forall>e\<in>set es. is_directory (snd e) \<and> \<not> is_image (fst e) \<longrightarrow>
            fst e \<notin> set (files (map fst es)))
         \<and> fst (run fresh (put fs source_dir (Some (Dir
                (filter (\<lambda>e. \<not> (is_directory (snd e) \<and> \<not> is_image (fst e))) es)))))
             = fst (run fresh fs)
         \<and> resolve (snd (run fresh (put fs source_dir (Some (Dir
                (filter (\<lambda>e. \<not> (is_directory (snd e) \<and> \<not> is_image (fst e))) es))))))
              dest_dir
             = resolve (snd (run fresh fs)) dest_dir"
  using run_ignores [OF assms, of "\<lambda>e. \<not> (is_directory (snd e) \<and> \<not> is_image (fst e))" fresh]
  by (simp add: files_def)

theorem plain_subdirectories_ignored_witness:
  "str ''old'' \<notin> set (files (map fst
      [(str ''old'', Dir [(str ''x.png'', File ''X'' stat0)]),
       (str ''icon.png'', File ''PNG'' stat0),
       (str ''notes.txt'', File ''hello'' stat0)]))
   \<and> fst (run fresh0 (put mixed_fs source_dir (Some (Dir
          [(str ''icon.png'', File ''PNG'' stat0), (str ''notes.txt'', File ''hello'' stat0)]))))
       = fst (run fresh0 mixed_fs)
   \<and> resolve (snd (run fresh0 (put mixed_fs source_dir (Some (Dir
          [(str ''icon.png'', File ''PNG'' stat0), (str ''notes.txt'', File ''hello'' stat0)])))))
        dest_dir
       = resolve (snd (run fresh0 mixed_fs)) dest_dir"
  using plain_subdirectories_ignored [OF mixed_fs_source, of fresh0]
  by (simp add: is_directory_def is_image_old is_image_icon is_image_notes)

text \<open>
  The claim as stated fails for a subdirectory with an image name: \<open>a.png\<close> is selected,
  its container is created, and the run ends when \<open>copy2\<close> opens the directory.
\<close>

theorem image_named_subdirectory_counterexample:
  "files [str ''a.png''] = [str ''a.png'']
   \<and> resolve subdir_fs source_dir = Inr (Dir [(str ''a.png'', Dir [])])
   \<and> fst (run fresh0 subdir_fs) = Some (IsADirectoryError (source_dir @ [str ''a.png'']))
   \<and> resolve (snd (run fresh0 subdir_fs)) (dest_dir @ [str ''a.imageset'']) = Inr (Dir [])"
proof -
  have D: "\<forall>d m. resolve subdir_fs dest_dir \<noteq> Inr (File d m)"
    by (simp add: subdir_fs_dest)
  have c: "catalog_files fresh0 [(str ''a.png'', Dir [])] [str ''a.png''] [root_entry fresh0] =
     (Some (IsADirectoryError (source_dir @ [str ''a.png''])),
      [root_entry fresh0, (str ''a.imageset'', Dir [])])"
    by (simp add: catalog_file_def name_a_png root_entry_def str_append [symmetric])
       (simp add: str_def)
  from run_source_dir [OF subdir_fs_source D, of fresh0] c
  show ?thesis
    by (auto simp: files_def is_image_a_png subdir_fs_source resolve_append [of _ dest_dir]
                   root_entry_def) (simp_all add: str_def)
qed

section \<open>The suffix test\<close>

lemma lower_cp_same_letter:
  "\<not> (65 \<le> b \<and> b \<le> 90) \<Longrightarrow> lower_cp a = b \<longleftrightarrow> spec_same_letter a b"
  by (auto simp: lower_cp_def spec_same_letter_def)

lemma lower_eq_iff:
  assumes "\<forall>b\<in>set s. \<not> (65 \<le> b \<and> b \<le> 90)"
  shows "lower t = s \<longleftrightarrow> list_all2 spec_same_letter t s"
  using assms
proof (induction t arbitrary: s)
  case Nil
  show ?case by (auto simp: lower_def)
next
  case (Cons a t)
  show ?case
  proof (cases s)
    case Nil
    then show ?thesis by (simp add: lower_def)
  next
    case (Cons b s')
    have "lower t = s' \<longleftrightarrow> list_all2 spec_same_letter t s'"
      using Cons.IH [of s'] Cons.prems Cons by simp
    moreover have "lower_cp a = b \<longleftrightarrow> spec_same_letter a b"
      using Cons.prems Cons by (intro lower_cp_same_letter) simp
    ultimately show ?thesis using Cons by (simp add: lower_def)
  qed
qed

lemma endswith_lower_iff:
  assumes "\<forall>b\<in>set s. \<not> (65 \<le> b \<and> b \<le> 90)"
  shows "endswith (lower f) s \<longleftrightarrow> spec_ends_caseless f s"
proof
  assume e: "endswith (lower f) s"
  define k where "k = length f - length s"
  have len: "length s \<le> length f" using e by (simp add: endswith_def lower_def)
  have "lower (drop k f) = s"
    using e by (simp add: endswith_def lower_def drop_map k_def)
  then have "list_all2 spec_same_letter (drop k f) s"
    using lower_eq_iff [OF assms] by simp
  moreover have "f = take k f @ drop k f" by simp
  ultimately show "spec_ends_caseless f s" unfolding spec_ends_caseless_def by blast
next
  assume "spec_ends_caseless f s"
  then obtain stem tail where f: "f = stem @ tail" and t: "list_all2 spec_same_letter tail s"
    unfolding spec_ends_caseless_def by blast
  have l: "length tail = length s" using t by (rule list_all2_lengthD)
  have "lower tail = s" using t lower_eq_iff [OF assms] by simp
  then show "endswith (lower f) s"
    using l by (simp add: endswith_def lower_def f)
qed

lemma is_image_Photo: "is_image (str ''Photo.PNG'')" by code_simp
lemma is_image_photo: "is_image (str ''photo.png'')" by code_simp
lemma is_image_gif: "\<not> is_image (str ''anim.gif'')" by code_simp

text \<open>
  C7.  A name is selected exactly when it ends, case ignored, with \<open>.png\<close>, \<open>.jpg\<close> or
  \<open>.jpeg\<close>; so \<open>Photo.PNG\<close> and \<open>photo.png\<close> are selected and \<open>notes.txt\<close> and
  \<open>anim.gif\<close> are not.  Entries of the source that are not selected play no part in the
  run: with all of them taken out of the source directory, the outcome and the destination
  are the same, so none of them is copied and none gives rise to a container.
\<close>

theorem selection_by_suffix:
  "(is_image f \<longleftrightarrow>
      spec_ends_caseless f (str ''.png'') \<or> spec_ends_caseless f (str ''.jpg'')
      \<or> spec_ends_caseless f (str ''.jpeg''))
   \<and> is_image (str ''Photo.PNG'') \<and> is_image (str ''photo.png'')
   \<and> \<not> is_image (str ''notes.txt'') \<and> \<not> is_image (str ''anim.gif'')
   \<and> files names = filter is_image names
   \<and> (resolve fs source_dir = Inr (Dir es) \<longrightarrow>
        fst (run fresh (put fs source_dir (Some (Dir (filter (\<lambda>e. is_image (fst e)) es)))))
          = fst (run fresh fs)
        \<and> resolve (snd (run fresh (put fs source_dir
                     (Some (Dir (filter (\<lambda>e. is_image (fst e)) es)))))) dest_dir
          = resolve (snd (run fresh fs)) dest_dir)"
proof -
  have low: "\<forall>b\<in>set (str ''.png''). \<not> (65 \<le> b \<and> b \<le> 90)"
    "\<forall>b\<in>set (str ''.jpg''). \<not> (65 \<le> b \<and> b \<le> 90)"
    "\<forall>b\<in>set (str ''.jpeg''). \<not> (65 \<le> b \<and> b \<le> 90)"
    by (simp_all add: str_def)
  have a: "is_image f \<longleftrightarrow>
      spec_ends_caseless f (str ''.png'') \<or> spec_ends_caseless f (str ''.jpg'')
      \<or> spec_ends_caseless f (str ''.jpeg'')"
    by (simp add: is_image_def endswith_any_def image_suffixes_def
                  endswith_lower_iff [OF low(1)] endswith_lower_iff [OF low(2)]
                  endswith_lower_iff [OF low(3)])
  have b: "resolve fs source_dir = Inr (Dir es) \<longrightarrow>
        fst (run fresh (put fs source_dir (Some (Dir (filter (\<lambda>e. is_image (fst e)) es)))))
          = fst (run fresh fs)
        \<and> resolve (snd (run fresh (put fs source_dir
                     (Some (Dir (filter (\<lambda>e. is_image (fst e)) es)))))) dest_dir
          = resolve (snd (run fresh fs)) dest_dir"
    using run_ignores [of fs es "\<lambda>e. is_image (fst e)" fresh] by simp
  show ?thesis
    using a b is_image_Photo is_image_photo is_image_notes is_image_gif
    by (simp only: files_def simp_thms)
qed

theorem selection_by_suffix_witness:
  "resolve mixed_fs source_dir =
     Inr (Dir [(str ''old'', Dir [(str ''x.png'', File ''X'' stat0)]),
               (str ''icon.png'', File ''PNG'' stat0),
               (str ''notes.txt'', File ''hello'' stat0)])
   \<and> spec_ends_caseless (str ''Photo.PNG'') (str ''.png'')
   \<and> fst (run fresh0 (put mixed_fs source_dir (Some (Dir [(str ''icon.png'', File ''PNG'' stat0)]))))
       = fst (run fresh0 mixed_fs)
   \<and> resolve (snd (run fresh0 (put mixed_fs source_dir
                 (Some (Dir [(str ''icon.png'', File ''PNG'' stat0)]))))) dest_dir
       = resolve (snd (run fresh0 mixed_fs)) dest_dir"
proof -
  have nj: "\<not> spec_ends_caseless (str ''Photo.PNG'') (str ''.jpg'')"
    by (auto simp: spec_ends_caseless_def str_def list_all2_Cons2 spec_same_letter_def append_eq_Cons_conv
                   append_eq_append_conv2 Cons_eq_append_conv)
  have nje: "\<not> spec_ends_caseless (str ''Photo.PNG'') (str ''.jpeg'')"
    by (auto simp: spec_ends_caseless_def str_def list_all2_Cons2 spec_same_letter_def append_eq_Cons_conv
                   append_eq_append_conv2 Cons_eq_append_conv)
  from selection_by_suffix [of "str ''Photo.PNG''" "[]" mixed_fs
        "[(str ''old'', Dir [(str ''x.png'', File ''X'' stat0)]),
          (str ''icon.png'', File ''PNG'' stat0),
          (str ''notes.txt'', File ''hello'' stat0)]" fresh0]
  show ?thesis using mixed_fs_source nj nje
    by (auto simp: is_image_old is_image_icon is_image_notes)
qed

section \<open>Running again\<close>

lemma contents_keys: "contents ds = contents ds' \<Longrightarrow> map fst ds = map fst ds'"
proof -
  assume "contents ds = contents ds'"
  then have "map fst (contents ds) = map fst (contents ds')" by simp
  then show ?thesis by (simp add: contents_def comp_def)
qed

lemma map_of_None_keys: "map_of ds c = None \<longleftrightarrow> c \<notin> set (map fst ds)"
  by (simp add: map_of_eq_None_iff)

lemma catalog_file_content:
  assumes "contents ds = contents ds'"
  shows "fst (catalog_file fresh es f ds) = fst (catalog_file fresh' es f ds')
         \<and> contents (snd (catalog_file fresh es f ds))
             = contents (snd (catalog_file fresh' es f ds'))"
proof -
  have k: "map_of ds c = None \<longleftrightarrow> map_of ds' c = None" for c
    using contents_keys [OF assms] by (simp add: map_of_None_keys)
  show ?thesis
  proof (cases "map_of ds (name_without_ext f @ str ''.imageset'')")
    case None
    then have "map_of ds' (name_without_ext f @ str ''.imageset'') = None" using k by simp
    then show ?thesis using None assms
      by (auto simp: catalog_file_def contents_def Let_def split: option.splits node.splits)
  next
    case (Some n)
    then obtain n' where "map_of ds' (name_without_ext f @ str ''.imageset'') = Some n'"
      using k [of "name_without_ext f @ str ''.imageset''"] by auto
    then show ?thesis using Some assms by (simp add: catalog_file_def Let_def)
  qed
qed

lemma catalog_files_content:
  assumes "contents ds = contents ds'"
  shows "fst (catalog_files fresh es fl ds) = fst (catalog_files fresh' es fl ds')
         \<and> contents (snd (catalog_files fresh es fl ds))
             = contents (snd (catalog_files fresh' es fl ds'))"
  using assms
proof (induction fl arbitrary: ds ds')
  case Nil
  then show ?case by simp
next
  case (Cons f fl)
  obtain r ds1 where a: "catalog_file fresh es f ds = (r, ds1)" by (cases "catalog_file fresh es f ds")
  obtain r' ds1' where b: "catalog_file fresh' es f ds' = (r', ds1')"
    by (cases "catalog_file fresh' es f ds'")
  from catalog_file_content [OF Cons.prems, of fresh es f fresh'] a b
  have r: "r' = r" and c: "contents ds1 = contents ds1'" by simp_all
  show ?case
  proof (cases r)
    case None
    then show ?thesis using a b r Cons.IH [OF c] by simp
  next
    case (Some e)
    then show ?thesis using a b r c by simp
  qed
qed

lemma catalog_content:
  "fst (catalog fresh src) = fst (catalog fresh' src)
   \<and> contents (snd (catalog fresh src)) = contents (snd (catalog fresh' src))"
proof -
  have r: "contents [root_entry fresh] = contents [root_entry fresh']"
    by (simp add: contents_def root_entry_def)
  show ?thesis
  proof (cases src)
    case (Inl e)
    then show ?thesis using r by (simp add: catalog_def)
  next
    case (Inr n)
    show ?thesis
    proof (cases n)
      case (File d m)
      then show ?thesis using r Inr by (simp add: catalog_def)
    next
      case (Dir es)
      then show ?thesis using Inr catalog_files_content [OF r] by (simp add: catalog_def)
    qed
  qed
qed

lemma run_again:
  assumes R: "reset_dest fs = (None, fs1)"
  shows "fst (run fresh' (snd (run fresh fs))) = fst (run fresh fs)
         \<and> (\<exists>ds ds'. resolve (snd (run fresh fs)) dest_dir = Inr (Dir ds)
               \<and> resolve (snd (run fresh' (snd (run fresh fs)))) dest_dir = Inr (Dir ds')
               \<and> contents ds' = contents ds)"
proof -
  define src where "src = resolve fs source_dir"
  obtain fs' where run1: "run fresh fs = (fst (catalog fresh src), fs')"
    and D1: "resolve fs' dest_dir = Inr (Dir (snd (catalog fresh src)))"
    and S1: "resolve fs' source_dir = src"
    using run_catalog [OF R, of fresh] unfolding src_def by blast
  obtain fs1' where R': "reset_dest fs' = (None, fs1')"
    using reset_dest_dir [OF D1] by blast
  obtain fs'' where run2: "run fresh' fs' = (fst (catalog fresh' src), fs'')"
    and D2: "resolve fs'' dest_dir = Inr (Dir (snd (catalog fresh' src)))"
    using run_catalog [OF R', of fresh'] unfolding S1 by blast
  show ?thesis
    using run1 run2 D1 D2 catalog_content [of fresh' src fresh] by simp
qed

lemma run_from_empty:
  assumes D: "resolve fs dest_dir = Inr (Dir ds)"
  shows "resolve (snd (run fresh fs)) dest_dir =
         resolve (snd (run fresh (put fs dest_dir (Some (Dir []))))) dest_dir"
proof -
  define gs where "gs = put fs dest_dir (Some (Dir []))"
  obtain ps where P: "resolve fs parent_dir = Inr (Dir ps)"
    using resolve_snoc_Inr [of fs parent_dir "str ''Assets.xcassets''" "Dir ds"] D dest_dir_eq
    by auto
  have Dg: "resolve gs dest_dir = Inr (Dir [])"
    unfolding gs_def dest_dir_eq by (rule resolve_put_new [OF P])
  have Sg: "resolve gs source_dir = resolve fs source_dir"
    by (simp add: gs_def put_dest_itself_source)
  obtain fs1 where R: "reset_dest fs = (None, fs1)" using reset_dest_dir [OF D] by blast
  obtain gs1 where Rg: "reset_dest gs = (None, gs1)" using reset_dest_dir [OF Dg] by blast
  from run_catalog [OF R, of fresh] run_catalog [OF Rg, of fresh] Sg
  show ?thesis by (auto simp: gs_def [symmetric])
qed

section \<open>Access times after a run\<close>

lemma process_file_atimes_step:
  assumes D: "resolve fs dest_dir = Inr (Dir ds)"
      and S: "resolve fs source_dir = Inr (Dir es)"
      and N: "map_of ds (container_name f) = None"
      and F: "map_of es f = Some (File d m)"
  shows "process_file_atimes accessed f fs at =
           (at(source_dir @ [f] := accessed (source_dir @ [f]) (at (source_dir @ [f]))))
             (imageset_dir f @ [f] := accessed (source_dir @ [f]) (at (source_dir @ [f])))"
proof -
  define c where "c = container_name f"
  have idir: "imageset_dir f = dest_dir @ [c]"
    by (simp add: imageset_dir_eq c_def)
  define fs1 where "fs1 = put fs (dest_dir @ [c]) (Some (Dir []))"
  have mk1: "makedirs fs (dest_dir @ [c]) False = Inr fs1"
    using makedirs_child [OF D, of c] N by (simp add: fs1_def c_def)
  have D1: "resolve fs1 dest_dir = Inr (Dir (ds @ [(c, Dir [])]))"
    using put_dest_dest [OF _ D, of "[c]" "Some (Dir [])"] N
    by (simp add: fs1_def update_fresh c_def)
  have S1: "resolve fs1 source_dir = Inr (Dir es)"
    using S put_dest_source [of fs "[c]" _ "[]"] by (simp add: fs1_def)
  have C1: "resolve fs1 (dest_dir @ [c]) = Inr (Dir [])"
    using D1 N by (simp add: resolve_append map_add_def c_def)
  have nd: "\<not> isdir fs1 (dest_dir @ [c] @ [f])"
    using C1 by (simp add: isdir_def resolve_append [of _ "dest_dir @ [c]" "[f]", simplified])
  have ne: "source_dir @ [f] \<noteq> dest_dir @ [c, f]"
    by (simp add: source_dir_eq dest_dir_eq)
  have Sf: "resolve fs1 (source_dir @ [f]) = Inr (File d m)"
    using S1 F by (simp add: resolve_append)
  have P1: "resolve fs1 (butlast (dest_dir @ [c, f])) = Inr (Dir [])"
    using C1 by (simp add: butlast_append)
  have cp: "copy2 fs1 (source_dir @ [f]) (dest_dir @ [c, f]) =
              Inr (put fs1 (dest_dir @ [c, f]) (Some (File d m)))"
    using nd ne Sf P1 by (simp add: copy2_def exists_def)
  show ?thesis
    using mk1 cp nd by (simp add: process_file_atimes_def copy2_atimes_def idir Let_def)
qed

lemma process_files_atimes_ok:
  assumes "resolve fs dest_dir = Inr (Dir ds)" and "resolve fs source_dir = Inr (Dir es)"
      and "catalog_files fresh es fl ds = (None, ds')"
  shows "process_files_atimes accessed fresh fl fs at = moved accessed fl at"
  using assms
proof (induction fl arbitrary: fs ds at)
  case Nil
  show ?case by simp
next
  case (Cons f fl)
  from Cons.prems(3) obtain ds1 where step: "catalog_file fresh es f ds = (None, ds1)"
    and rest: "catalog_files fresh es fl ds1 = (None, ds')"
    by (auto split: prod.splits option.splits)
  from catalog_file_None [OF step] obtain d m where
    N: "map_of ds (container_name f) = None" and F: "map_of es f = Some (File d m)" by blast
  obtain fs1 where pf: "process_file fresh f fs = (None, fs1)"
    and D1: "resolve fs1 dest_dir = Inr (Dir ds1)"
    and S1: "resolve fs1 source_dir = Inr (Dir es)"
    using process_file_catalog [OF Cons.prems(1,2), of fresh f] step by auto
  have "process_files_atimes accessed fresh fl fs1 at' = moved accessed fl at'" for at'
    by (rule Cons.IH [OF D1 S1 rest])
  then show ?case
    using pf process_file_atimes_step [OF Cons.prems(1,2) N F, of accessed at] by simp
qed

lemma source_path_neq_copy: "source_dir @ [f] \<noteq> imageset_dir g @ [h]"
  by (simp add: imageset_dir_eq source_dir_eq dest_dir_eq)

lemma moved_other:
  "\<forall>f\<in>set fl. p \<noteq> source_dir @ [f] \<and> p \<noteq> imageset_dir f @ [f] \<Longrightarrow>
   moved accessed fl at p = at p"
  by (induction fl arbitrary: at) simp_all

lemma moved_selected:
  assumes "distinct fl" and "f \<in> set fl"
  shows "moved accessed fl at (source_dir @ [f]) = accessed (source_dir @ [f]) (at (source_dir @ [f]))
         \<and> moved accessed fl at (imageset_dir f @ [f])
             = accessed (source_dir @ [f]) (at (source_dir @ [f]))"
  using assms
proof (induction fl arbitrary: at)
  case Nil
  then show ?case by simp
next
  case (Cons g fl)
  define at1 where
    "at1 = (at(source_dir @ [g] := accessed (source_dir @ [g]) (at (source_dir @ [g]))))
          (imageset_dir g @ [g] := accessed (source_dir @ [g]) (at (source_dir @ [g])))"
  have m: "moved accessed (g # fl) at = moved accessed fl at1"
    by (simp add: at1_def)
  show ?case
  proof (cases "f = g")
    case True
    then have nf: "f \<notin> set fl" using Cons.prems by simp
    have a: "\<forall>h\<in>set fl. source_dir @ [f] \<noteq> source_dir @ [h]
                \<and> source_dir @ [f] \<noteq> imageset_dir h @ [h]"
      using nf source_path_neq_copy by auto
    have b: "\<forall>h\<in>set fl. imageset_dir f @ [f] \<noteq> source_dir @ [h]
                \<and> imageset_dir f @ [f] \<noteq> imageset_dir h @ [h]"
      using nf source_path_neq_copy [symmetric] by (auto simp: imageset_dir_eq)
    show ?thesis
      unfolding m using moved_other [OF a, of accessed at1] moved_other [OF b, of accessed at1]
        True source_path_neq_copy [of g g g]
      by (simp add: at1_def)
  next
    case False
    then have "f \<in> set fl" and "distinct fl" using Cons.prems by simp_all
    from Cons.IH [OF this(2,1), of at1]
    have "moved accessed fl at1 (source_dir @ [f])
            = accessed (source_dir @ [f]) (at1 (source_dir @ [f]))
        \<and> moved accessed fl at1 (imageset_dir f @ [f])
            = accessed (source_dir @ [f]) (at1 (source_dir @ [f]))" .
    moreover have "at1 (source_dir @ [f]) = at (source_dir @ [f])"
      using False source_path_neq_copy [of f g g] by (simp add: at1_def)
    ultimately show ?thesis unfolding m by simp
  qed
qed

lemma run_atimes_completes:
  assumes S: "resolve fs source_dir = Inr (Dir es)" and ok: "fst (run fresh fs) = None"
  shows "run_atimes accessed fresh fs at = moved accessed (files (map fst es)) at"
proof -
  obtain r fs1 where R0: "reset_dest fs = (r, fs1)" by (cases "reset_dest fs")
  have "r = None"
  proof (cases r)
    case (Some e)
    then show ?thesis using run_reset_failed [of fs e fs1 fresh] R0 ok by simp
  qed simp
  then have R: "reset_dest fs = (None, fs1)" using R0 by simp
  have D1: "resolve fs1 dest_dir = Inr (Dir [])"
    and S1: "resolve fs1 source_dir = Inr (Dir es)"
    using reset_dest_None [OF R] S by simp_all
  define cj where "cj = str ''Contents.json''"
  define x where "x = File (json_dump root_contents 2) (fresh (dest_dir @ [cj]))"
  define fs2 where "fs2 = put fs1 (dest_dir @ [cj]) (Some x)"
  have wr: "write_file fresh fs1 (dest_dir @ [cj]) (json_dump root_contents 2) = Inr fs2"
    using D1 by (simp add: write_file_def fs2_def x_def)
  have D2: "resolve fs2 dest_dir = Inr (Dir [root_entry fresh])"
    using put_dest_dest [OF _ D1, of "[cj]" "Some x"]
    by (simp add: fs2_def root_entry_def x_def cj_def)
  have S2: "resolve fs2 source_dir = Inr (Dir es)"
    using S1 put_dest_source [of fs1 "[cj]" _ "[]"] by (simp add: fs2_def)
  have run: "run fresh fs = process_files fresh (files (map fst es)) fs2"
    using R wr S2 by (simp add: run_def cj_def listdir_def)
  have rat: "run_atimes accessed fresh fs at =
               process_files_atimes accessed fresh (files (map fst es)) fs2 at"
    using R wr S2 by (simp add: run_atimes_def cj_def listdir_def)
  have "fst (catalog_files fresh es (files (map fst es)) [root_entry fresh]) = None"
    using process_files_catalog [OF D2 S2, of fresh "files (map fst es)"] run ok by auto
  then have "catalog_files fresh es (files (map fst es)) [root_entry fresh] =
          (None, snd (catalog_files fresh es (files (map fst es)) [root_entry fresh]))"
    by (simp add: prod_eq_iff)
  from process_files_atimes_ok [OF D2 S2 this] rat show ?thesis by simp
qed

lemma copies_after_run:
  assumes S: "resolve fs source_dir = Inr (Dir es)" and ok: "fst (run fresh fs) = None"
      and f: "f \<in> set (files (map fst es))"
  shows "\<exists>d m. resolve fs (source_dir @ [f]) = Inr (File d m)
           \<and> resolve (snd (run fresh fs)) (source_dir @ [f]) = Inr (File d m)
           \<and> resolve (snd (run fresh fs)) (imageset_dir f @ [f]) = Inr (File d m)"
proof -
  from run_completes [OF S ok] have
    F: "\<forall>e\<in>set es. is_image (fst e) \<longrightarrow> (\<exists>d m. snd e = File d m)"
    and U: "distinct (map name_without_ext (files (map fst es)))"
    and D': "resolve (snd (run fresh fs)) dest_dir =
             Inr (Dir (root_entry fresh #
                       map (container fresh) (filter (\<lambda>e. is_image (fst e)) es)))"
    by blast+
  from f obtain n where e: "(f, n) \<in> set es" and i: "is_image f"
    by (auto simp: files_def)
  from F e i obtain d m where n: "n = File d m" by fastforce
  have dn: "distinct (filter is_image (map fst es))"
    using U by (simp add: distinct_map files_def)
  have src: "map_of es f = Some (File d m)"
    using map_of_selected [OF dn e i] n by simp
  have 1: "resolve fs (source_dir @ [f]) = Inr (File d m)"
    using S src by (simp add: resolve_append)
  have 2: "resolve (snd (run fresh fs)) (source_dir @ [f]) = Inr (File d m)"
    using S src run_source_unchanged [of fresh fs] by (simp add: resolve_append)
  have 3: "resolve (snd (run fresh fs)) (imageset_dir f @ [f]) = Inr (File d m)"
    using D' container_lookup [OF U e i, of fresh] n
    by (simp add: imageset_dir_eq resolve_append [of _ dest_dir])
  show ?thesis using 1 2 3 by blast
qed

lemma atimes_after_run:
  assumes S: "resolve fs source_dir = Inr (Dir es)" and ok: "fst (run fresh fs) = None"
  shows "(\<forall>f\<in>set (files (map fst es)).
            run_atimes accessed fresh fs at (source_dir @ [f])
              = accessed (source_dir @ [f]) (at (source_dir @ [f]))
            \<and> run_atimes accessed fresh fs at (imageset_dir f @ [f])
              = accessed (source_dir @ [f]) (at (source_dir @ [f])))
         \<and> (\<forall>g. g \<notin> set (files (map fst es)) \<longrightarrow>
              run_atimes accessed fresh fs at (source_dir @ [g]) = at (source_dir @ [g]))"
proof -
  have r: "run_atimes accessed fresh fs at = moved accessed (files (map fst es)) at"
    by (rule run_atimes_completes [OF S ok])
  have dn: "distinct (files (map fst es))"
    using run_completes [OF S ok] by (simp add: distinct_map)
  have a: "run_atimes accessed fresh fs at (source_dir @ [f])
              = accessed (source_dir @ [f]) (at (source_dir @ [f]))
            \<and> run_atimes accessed fresh fs at (imageset_dir f @ [f])
              = accessed (source_dir @ [f]) (at (source_dir @ [f]))"
    if "f \<in> set (files (map fst es))" for f
    unfolding r by (rule moved_selected [OF dn that])
  have b: "run_atimes accessed fresh fs at (source_dir @ [g]) = at (source_dir @ [g])"
    if "g \<notin> set (files (map fst es))" for g
  proof -
    have "\<forall>f\<in>set (files (map fst es)). source_dir @ [g] \<noteq> source_dir @ [f]
            \<and> source_dir @ [g] \<noteq> imageset_dir f @ [f]"
      using that source_path_neq_copy by auto
    from moved_other [OF this] show ?thesis unfolding r .
  qed
  show ?thesis using a b by blast
qed

text \<open>
  C8, as the code has it.  No run changes the tree under the source path: names, bytes,
  permission bits, modification times and flags are the same afterwards, whether the run
  completes or fails.  When a run over a source directory completes, every selected name
  is a regular file of the source, and its copy in the container has the same bytes,
  permission bits, modification time and flags.  The access time is not preserved: the
  read moves the access time of the source file as the mount decides, and the copy
  receives the moved value, not the one the source had before.  Entries that are not
  selected are not read.
\<close>

theorem copy_preserves_file:
  "resolve (snd (run fresh fs)) source_dir = resolve fs source_dir
   \<and> (resolve fs source_dir = Inr (Dir es) \<and> fst (run fresh fs) = None \<longrightarrow>
        (\<forall>f\<in>set (files (map fst es)).
           (\<exists>d m. resolve fs (source_dir @ [f]) = Inr (File d m)
                 \<and> resolve (snd (run fresh fs)) (source_dir @ [f]) = Inr (File d m)
                 \<and> resolve (snd (run fresh fs)) (imageset_dir f @ [f]) = Inr (File d m))
           \<and> run_atimes accessed fresh fs at (source_dir @ [f])
               = accessed (source_dir @ [f]) (at (source_dir @ [f]))
           \<and> run_atimes accessed fresh fs at (imageset_dir f @ [f])
               = accessed (source_dir @ [f]) (at (source_dir @ [f])))
        \<and> (\<forall>g. g \<notin> set (files (map fst es)) \<longrightarrow>
              run_atimes accessed fresh fs at (source_dir @ [g]) = at (source_dir @ [g])))"
proof (intro conjI impI)
  show "resolve (snd (run fresh fs)) source_dir = resolve fs source_dir"
    by (rule run_source_unchanged)
next
  assume a: "resolve fs source_dir = Inr (Dir es) \<and> fst (run fresh fs) = None"
  then have S: "resolve fs source_dir = Inr (Dir es)" and ok: "fst (run fresh fs) = None"
    by simp_all
  show "\<forall>f\<in>set (files (map fst es)).
           (\<exists>d m. resolve fs (source_dir @ [f]) = Inr (File d m)
                 \<and> resolve (snd (run fresh fs)) (source_dir @ [f]) = Inr (File d m)
                 \<and> resolve (snd (run fresh fs)) (imageset_dir f @ [f]) = Inr (File d m))
           \<and> run_atimes accessed fresh fs at (source_dir @ [f])
               = accessed (source_dir @ [f]) (at (source_dir @ [f]))
           \<and> run_atimes accessed fresh fs at (imageset_dir f @ [f])
               = accessed (source_dir @ [f]) (at (source_dir @ [f]))"
    using copies_after_run [OF S ok] atimes_after_run [OF S ok, of accessed at] by blast
next
  assume a: "resolve fs source_dir = Inr (Dir es) \<and> fst (run fresh fs) = None"
  then have S: "resolve fs source_dir = Inr (Dir es)" and ok: "fst (run fresh fs) = None"
    by simp_all
  show "\<forall>g. g \<notin> set (files (map fst es)) \<longrightarrow>
              run_atimes accessed fresh fs at (source_dir @ [g]) = at (source_dir @ [g])"
    using atimes_after_run [OF S ok, of accessed at] by blast
qed

lemma icon_fs_files:
  "files (map fst [(str ''icon.png'', File ''PNG'' stat0), (str ''notes.txt'', File ''hello'' stat0)])
     = [str ''icon.png'']"
  by (simp add: files_def is_image_icon is_image_notes)

theorem copy_preserves_file_witness:
  "resolve icon_fs source_dir =
     Inr (Dir [(str ''icon.png'', File ''PNG'' stat0), (str ''notes.txt'', File ''hello'' stat0)])
   \<and> fst (run fresh0 icon_fs) = None
   \<and> resolve (snd (run fresh0 icon_fs)) source_dir = resolve icon_fs source_dir
   \<and> resolve (snd (run fresh0 icon_fs)) (source_dir @ [str ''icon.png'']) = Inr (File ''PNG'' stat0)
   \<and> resolve (snd (run fresh0 icon_fs)) (imageset_dir (str ''icon.png'') @ [str ''icon.png''])
       = Inr (File ''PNG'' stat0)
   \<and> run_atimes accessed0 fresh0 icon_fs atime0 (imageset_dir (str ''icon.png'') @ [str ''icon.png''])
       = accessed0 (source_dir @ [str ''icon.png'']) (atime0 (source_dir @ [str ''icon.png'']))
   \<and> run_atimes accessed0 fresh0 icon_fs atime0 (source_dir @ [str ''notes.txt''])
       = atime0 (source_dir @ [str ''notes.txt''])"
proof -
  have src: "resolve icon_fs (source_dir @ [str ''icon.png'']) = Inr (File ''PNG'' stat0)"
    using icon_fs_source by (simp add: resolve_append)
  have n: "str ''notes.txt'' \<notin> set [str ''icon.png'']" by (simp add: str_def)
  from copy_preserves_file [of fresh0 icon_fs
      "[(str ''icon.png'', File ''PNG'' stat0), (str ''notes.txt'', File ''hello'' stat0)]"
      accessed0 atime0]
    icon_fs_source icon_fs_completes src n
  show ?thesis unfolding icon_fs_files by fastforce
qed

text \<open>
  The claim as stated fails for the access time, which is one of the timestamps: with a
  mount that records reads, the source file, last accessed at time 1000, has the access
  time 5000 after the run, and so has its copy.
\<close>

theorem copy_access_time_counterexample:
  "fst (run fresh0 icon_fs) = None
   \<and> atime0 (source_dir @ [str ''icon.png'']) = 1000
   \<and> run_atimes accessed0 fresh0 icon_fs atime0 (source_dir @ [str ''icon.png'']) = 5000
   \<and> run_atimes accessed0 fresh0 icon_fs atime0
        (imageset_dir (str ''icon.png'') @ [str ''icon.png'']) = 5000"
proof -
  have m: "str ''icon.png'' \<in> set (files (map fst
      [(str ''icon.png'', File ''PNG'' stat0), (str ''notes.txt'', File ''hello'' stat0)]))"
    by (simp add: files_def is_image_icon)
  from atimes_after_run [OF icon_fs_source icon_fs_completes, of accessed0 atime0] m
  show ?thesis using icon_fs_completes by (simp add: accessed0_def atime0_def)
qed

lemma run_catalog_again:
  assumes R: "reset_dest fs = (None, fs1)"
  shows "fst (run fresh fs) = fst (catalog fresh (resolve fs source_dir))
         \<and> resolve (snd (run fresh fs)) dest_dir =
             Inr (Dir (snd (catalog fresh (resolve fs source_dir))))
         \<and> fst (run fresh' (snd (run fresh fs))) = fst (catalog fresh' (resolve fs source_dir))
         \<and> resolve (snd (run fresh' (snd (run fresh fs)))) dest_dir =
             Inr (Dir (snd (catalog fresh' (resolve fs source_dir))))"
proof -
  define src where "src = resolve fs source_dir"
  obtain fs' where run1: "run fresh fs = (fst (catalog fresh src), fs')"
    and D1: "resolve fs' dest_dir = Inr (Dir (snd (catalog fresh src)))"
    and S1: "resolve fs' source_dir = src"
    using run_catalog [OF R, of fresh] unfolding src_def by blast
  obtain fs1' where R': "reset_dest fs' = (None, fs1')"
    using reset_dest_dir [OF D1] by blast
  obtain fs'' where run2: "run fresh' fs' = (fst (catalog fresh' src), fs'')"
    and D2: "resolve fs'' dest_dir = Inr (Dir (snd (catalog fresh' src)))"
    using run_catalog [OF R', of fresh'] unfolding S1 by blast
  show ?thesis
    using run1 run2 D1 D2 by (simp add: src_def)
qed

lemma rerun_valid:
  assumes S: "resolve fs source_dir = Inr (Dir es)" and ok: "fst (run fresh fs) = None"
  shows "resolve (snd (run fresh fs)) dest_dir =
           Inr (Dir (root_entry fresh #
                     map (container fresh) (filter (\<lambda>e. is_image (fst e)) es)))
         \<and> fst (run fresh' (snd (run fresh fs))) = None
         \<and> resolve (snd (run fresh' (snd (run fresh fs)))) dest_dir =
             Inr (Dir (root_entry fresh' #
                       map (container fresh') (filter (\<lambda>e. is_image (fst e)) es)))"
proof -
  from run_completes [OF S ok] have
    F: "\<forall>e\<in>set es. is_image (fst e) \<longrightarrow> (\<exists>d m. snd e = File d m)"
    and U: "distinct (map name_without_ext (files (map fst es)))"
    and D1: "resolve (snd (run fresh fs)) dest_dir =
             Inr (Dir (root_entry fresh #
                       map (container fresh) (filter (\<lambda>e. is_image (fst e)) es)))"
    by blast+
  have S1: "resolve (snd (run fresh fs)) source_dir = Inr (Dir es)"
    using run_source_unchanged [of fresh fs] S by simp
  have nf: "\<forall>d m. resolve (snd (run fresh fs)) dest_dir \<noteq> Inr (File d m)"
    using D1 by simp
  from run_source_dir [OF S1 nf, of fresh'] catalog_valid [OF F U, of fresh'] D1
  show ?thesis by auto
qed

text \<open>
  C9.  Running the script on the file system that a first run has left gives the same
  outcome (the same exception, or completion) and a destination with the same content:
  the same names, the same nesting and the same bytes, whatever metadata the second run
  gives to the descriptors it writes.  Each run rebuilds the destination from the source
  alone.  Once the reset has succeeded, the destination that a run leaves is the root
  descriptor followed by what the loop has made of the source listing, and the second run
  leaves that again; when the first run completes, both runs leave exactly the root
  descriptor and one container per image entry of the source.  A run that starts with a
  destination directory leaves the same destination as a run that starts with an empty
  one: what the directory held is wiped, not merged.
\<close>

theorem rerun_same_content:
  "fst (run fresh' (snd (run fresh fs))) = fst (run fresh fs)
   \<and> map_sum id content (resolve (snd (run fresh' (snd (run fresh fs)))) dest_dir)
       = map_sum id content (resolve (snd (run fresh fs)) dest_dir)
   \<and> (resolve fs dest_dir = Inr (Dir ds) \<longrightarrow>
        resolve (snd (run fresh fs)) dest_dir
          = resolve (snd (run fresh (put fs dest_dir (Some (Dir []))))) dest_dir)
   \<and> (fst (reset_dest fs) = None \<longrightarrow>
        fst (run fresh fs) = fst (catalog fresh (resolve fs source_dir))
        \<and> resolve (snd (run fresh fs)) dest_dir =
            Inr (Dir (snd (catalog fresh (resolve fs source_dir))))
        \<and> resolve (snd (run fresh' (snd (run fresh fs)))) dest_dir =
            Inr (Dir (snd (catalog fresh' (resolve fs source_dir)))))
   \<and> (resolve fs source_dir = Inr (Dir es) \<and> fst (run fresh fs) = None \<longrightarrow>
        resolve (snd (run fresh fs)) dest_dir =
          Inr (Dir ((str ''Contents.json'',
                     File (json_dump root_contents 2) (fresh (dest_dir @ [str ''Contents.json'']))) #
                    map (container fresh) (filter (\<lambda>e. is_image (fst e)) es)))
        \<and> fst (run fresh' (snd (run fresh fs))) = None
        \<and> resolve (snd (run fresh' (snd (run fresh fs)))) dest_dir =
            Inr (Dir ((str ''Contents.json'',
                       File (json_dump root_contents 2) (fresh' (dest_dir @ [str ''Contents.json'']))) #
                      map (container fresh') (filter (\<lambda>e. is_image (fst e)) es))))"
proof -
  have a: "fst (run fresh' (snd (run fresh fs))) = fst (run fresh fs)
     \<and> map_sum id content (resolve (snd (run fresh' (snd (run fresh fs)))) dest_dir)
         = map_sum id content (resolve (snd (run fresh fs)) dest_dir)"
  proof (cases "reset_dest fs")
    case (Pair r fs1)
    show ?thesis
    proof (cases r)
      case None
      then have R: "reset_dest fs = (None, fs1)" using Pair by simp
      from run_again [OF R, of fresh' fresh]
      show ?thesis by (auto simp: contents_def)
    next
      case (Some e)
      then have "run fresh fs = (Some e, fs)" for fresh
        using run_reset_failed [of fs e fs1] Pair by simp
      then show ?thesis by simp
    qed
  qed
  have b: "resolve fs dest_dir = Inr (Dir ds) \<longrightarrow>
        resolve (snd (run fresh fs)) dest_dir
          = resolve (snd (run fresh (put fs dest_dir (Some (Dir []))))) dest_dir"
    using run_from_empty [of fs ds fresh] by blast
  have c: "fst (reset_dest fs) = None \<longrightarrow>
        fst (run fresh fs) = fst (catalog fresh (resolve fs source_dir))
        \<and> resolve (snd (run fresh fs)) dest_dir =
            Inr (Dir (snd (catalog fresh (resolve fs source_dir))))
        \<and> resolve (snd (run fresh' (snd (run fresh fs)))) dest_dir =
            Inr (Dir (snd (catalog fresh' (resolve fs source_dir))))"
  proof
    assume "fst (reset_dest fs) = None"
    then have "reset_dest fs = (None, snd (reset_dest fs))" by (simp add: prod_eq_iff)
    from run_catalog_again [OF this, of fresh fresh']
    show "fst (run fresh fs) = fst (catalog fresh (resolve fs source_dir))
        \<and> resolve (snd (run fresh fs)) dest_dir =
            Inr (Dir (snd (catalog fresh (resolve fs source_dir))))
        \<and> resolve (snd (run fresh' (snd (run fresh fs)))) dest_dir =
            Inr (Dir (snd (catalog fresh' (resolve fs source_dir))))" by blast
  qed
  have d: "resolve fs source_dir = Inr (Dir es) \<and> fst (run fresh fs) = None \<longrightarrow>
        resolve (snd (run fresh fs)) dest_dir =
          Inr (Dir ((str ''Contents.json'',
                     File (json_dump root_contents 2) (fresh (dest_dir @ [str ''Contents.json'']))) #
                    map (container fresh) (filter (\<lambda>e. is_image (fst e)) es)))
        \<and> fst (run fresh' (snd (run fresh fs))) = None
        \<and> resolve (snd (run fresh' (snd (run fresh fs)))) dest_dir =
            Inr (Dir ((str ''Contents.json'',
                       File (json_dump root_contents 2) (fresh' (dest_dir @ [str ''Contents.json'']))) #
                      map (container fresh') (filter (\<lambda>e. is_image (fst e)) es)))"
    using rerun_valid [of fs es fresh fresh'] by (simp add: root_entry_def)
  show ?thesis using a b c d by blast
qed

lemma stale_fs_dest:
  "resolve stale_fs dest_dir = Inr (Dir [(str ''stale.txt'', File ''old'' stat0)])"
  unfolding stale_fs_def dest_dir_eq by (simp add: resolve_under assets_neq)

lemma stale_fs_source:
  "resolve stale_fs source_dir = Inr (Dir [(str ''icon.png'', File ''PNG'' stat0)])"
  unfolding stale_fs_def source_dir_eq by (simp add: resolve_under)

lemma stale_fs_completes: "fst (run fresh0 stale_fs) = None"
proof -
  have F: "\<forall>e\<in>set [(str ''icon.png'', File ''PNG'' stat0)].
             is_image (fst e) \<longrightarrow> (\<exists>d m. snd e = File d m)"
    by simp
  have U: "distinct (map name_without_ext (files (map fst [(str ''icon.png'', File ''PNG'' stat0)])))"
    by (simp add: files_def)
  have D: "\<forall>d m. resolve stale_fs dest_dir \<noteq> Inr (File d m)"
    by (simp add: stale_fs_dest)
  show ?thesis
    using run_source_dir [OF stale_fs_source D, of fresh0] catalog_valid [OF F U, of fresh0]
    by auto
qed

theorem rerun_same_content_witness:
  "resolve stale_fs dest_dir = Inr (Dir [(str ''stale.txt'', File ''old'' stat0)])
   \<and> resolve stale_fs source_dir = Inr (Dir [(str ''icon.png'', File ''PNG'' stat0)])
   \<and> fst (run fresh0 stale_fs) = None
   \<and> resolve (snd (run fresh0 stale_fs)) dest_dir =
       Inr (Dir [(str ''Contents.json'',
                  File (json_dump root_contents 2) (fresh0 (dest_dir @ [str ''Contents.json'']))),
                 (str ''icon.imageset'',
                  Dir [(str ''icon.png'', File ''PNG'' stat0),
                       (str ''Contents.json'',
                        File (json_dump (image_contents (str ''icon.png'')) 2)
                          (fresh0 (imageset_dir (str ''icon.png'') @ [str ''Contents.json''])))])])
   \<and> resolve (snd (run fresh0 stale_fs)) (dest_dir @ [str ''stale.txt'']) = Inl ENOENT
   \<and> fst (run fresh1 (snd (run fresh0 stale_fs))) = None
   \<and> resolve (snd (run fresh1 (snd (run fresh0 stale_fs)))) dest_dir =
       Inr (Dir [(str ''Contents.json'',
                  File (json_dump root_contents 2) (fresh1 (dest_dir @ [str ''Contents.json'']))),
                 (str ''icon.imageset'',
                  Dir [(str ''icon.png'', File ''PNG'' stat0),
                       (str ''Contents.json'',
                        File (json_dump (image_contents (str ''icon.png'')) 2)
                          (fresh1 (imageset_dir (str ''icon.png'') @ [str ''Contents.json''])))])])
   \<and> resolve (snd (run fresh0 stale_fs)) dest_dir
       = resolve (snd (run fresh0 (put stale_fs dest_dir (Some (Dir []))))) dest_dir"
proof -
  note t = rerun_same_content [of fresh1 fresh0 stale_fs
      "[(str ''stale.txt'', File ''old'' stat0)]" "[(str ''icon.png'', File ''PNG'' stat0)]"]
  have d0: "resolve (snd (run fresh0 stale_fs)) dest_dir =
       Inr (Dir [(str ''Contents.json'',
                  File (json_dump root_contents 2) (fresh0 (dest_dir @ [str ''Contents.json'']))),
                 (str ''icon.imageset'',
                  Dir [(str ''icon.png'', File ''PNG'' stat0),
                       (str ''Contents.json'',
                        File (json_dump (image_contents (str ''icon.png'')) 2)
                          (fresh0 (imageset_dir (str ''icon.png'') @ [str ''Contents.json''])))])])"
    using t stale_fs_source stale_fs_completes
    by (simp add: is_image_icon container_def container_name_def name_icon
                  str_append [symmetric])
  have gone: "resolve (snd (run fresh0 stale_fs)) (dest_dir @ [str ''stale.txt'']) = Inl ENOENT"
    unfolding resolve_append [of _ dest_dir] d0 by (simp add: str_def)
  have d1: "fst (run fresh1 (snd (run fresh0 stale_fs))) = None
    \<and> resolve (snd (run fresh1 (snd (run fresh0 stale_fs)))) dest_dir =
       Inr (Dir [(str ''Contents.json'',
                  File (json_dump root_contents 2) (fresh1 (dest_dir @ [str ''Contents.json'']))),
                 (str ''icon.imageset'',
                  Dir [(str ''icon.png'', File ''PNG'' stat0),
                       (str ''Contents.json'',
                        File (json_dump (image_contents (str ''icon.png'')) 2)
                          (fresh1 (imageset_dir (str ''icon.png'') @ [str ''Contents.json''])))])])"
    using t stale_fs_source stale_fs_completes
    by (simp add: is_image_icon container_def container_name_def name_icon
                  str_append [symmetric])
  have e: "resolve (snd (run fresh0 stale_fs)) dest_dir
       = resolve (snd (run fresh0 (put stale_fs dest_dir (Some (Dir []))))) dest_dir"
    using t stale_fs_dest by blast
  show ?thesis
    using stale_fs_dest stale_fs_source stale_fs_completes d0 gone d1 e by blast
qed

end
